theory Spec2Isabelle
  imports Main "HOL-Library.Sublist"
begin

section \<open>Python values and errors\<close>

text \<open>
  The exceptions the module can raise or catch. \<open>KeyError\<close> comes from a subscript
  \<open>d[k]\<close> on a missing key, \<open>AttributeError\<close> from \<open>getattr\<close> on a missing
  attribute and from the explicit \<open>raise\<close> in \<open>add_model\<close>.
\<close>

datatype py_error = KeyError | AttributeError

datatype log_level = ERROR | INFO

type_synonym log_entry = "log_level \<times> string"

section \<open>Markup dictionaries\<close>

text \<open>
  A transition of the markup is a Python dict. Each key the module reads is a field;
  \<open>None\<close> is "key absent". A key that is there holds what the machine's markup puts
  under it: a string, or a list of strings for \<open>conditions\<close> and \<open>unless\<close>.
  \<open>copy.copy\<close> followed by item assignment is a record update, which leaves every other
  key as it was.
\<close>

record transition =
  trigger :: "string option"
  source :: "string option"
  dest :: "string option"
  conditions :: "string list option"
  unless :: "string list option"
  label :: "string option"

text \<open>
  The value under the key \<open>initial\<close> of a state dict: a plain string, an object with a
  \<open>name\<close> attribute (an enum member or a state object), or a list (parallel states).
\<close>

datatype initial_value =
    Ini_str string
  | Ini_named string
  | Ini_list "string list"

text \<open>
  A scope is the markup dict of the machine or of one state. Both kinds are read with the
  same keys: \<open>name\<close>, \<open>initial\<close>, \<open>children\<close>, \<open>states\<close>, \<open>transitions\<close>.
\<close>

datatype scope =
  Scope (name: "string option")
        (initial: "initial_value option")
        (children: "scope list option")
        (states: "scope list option")
        (transitions: "transition list option")

text \<open>\<open>d.get(k, [])\<close> for a list-valued key.\<close>

definition get_list :: "'a list option \<Rightarrow> 'a list" where
  "get_list v = (case v of None \<Rightarrow> [] | Some xs \<Rightarrow> xs)"

text \<open>\<open>sep.join(xs)\<close>\<close>

fun join :: "string \<Rightarrow> string list \<Rightarrow> string" where
  "join sep [] = []"
| "join sep [x] = x"
| "join sep (x # y # ys) = x @ sep @ join sep (y # ys)"

section \<open>\<open>BaseGraph._transition_label\<close>\<close>

text \<open>
  \<open>tran.get("label", tran["trigger"])\<close> evaluates the subscript before the call, so a
  dict without \<open>trigger\<close> raises \<open>KeyError\<close> even when it has a \<open>label\<close>.
\<close>

definition transition_label :: "bool \<Rightarrow> transition \<Rightarrow> py_error + string" where
  "transition_label show_conditions tran =
     (case trigger tran of
        None \<Rightarrow> Inl KeyError
      | Some trg \<Rightarrow>
          let edge_label = (case label tran of None \<Rightarrow> trg | Some l \<Rightarrow> l);
              edge_label = (if dest tran = None then edge_label @ '' [internal]'' else edge_label);
              edge_label =
                (if show_conditions \<and> (conditions tran \<noteq> None \<or> unless tran \<noteq> None)
                 then edge_label @ '' ['' @
                      join '' & '' (get_list (conditions tran) @
                                    map (\<lambda>u. ''!'' @ u) (get_list (unless tran))) @ '']''
                 else edge_label)
          in Inr edge_label)"

section \<open>\<open>BaseGraph._get_elements\<close>\<close>

text \<open>
  The loop variables: the two result lists and the queue of \<open>(prefix, scope)\<close> pairs.
  The lists are mutated in place, so what was appended before an exception is still there
  after it.
\<close>

record elements =
  el_states :: "scope list"
  el_transitions :: "transition list"
  el_queue :: "(string list \<times> scope) list"

text \<open>The body of \<open>for transition in scope.get("transitions", [])\<close> up to the append.\<close>

definition prefixed_copy :: "string \<Rightarrow> string list \<Rightarrow> transition \<Rightarrow> py_error + transition" where
  "prefixed_copy sep pfx transition =
     (if pfx \<noteq> [] then
        (case source transition of
           None \<Rightarrow> Inl KeyError
         | Some s \<Rightarrow>
             let tran = transition\<lparr>source := Some (join sep (pfx @ [s]))\<rparr>
             in (case dest tran of
                   Some d \<Rightarrow> Inr (tran\<lparr>dest := Some (join sep (pfx @ [d]))\<rparr>)
                 | None \<Rightarrow> Inr tran))
      else Inr transition)"

fun for_transitions ::
  "string \<Rightarrow> string list \<Rightarrow> transition list \<Rightarrow> transition list \<Rightarrow> py_error option \<times> transition list"
where
  "for_transitions sep pfx [] acc = (None, acc)"
| "for_transitions sep pfx (t # ts) acc =
     (case prefixed_copy sep pfx t of
        Inl e \<Rightarrow> (Some e, acc)
      | Inr tran \<Rightarrow> for_transitions sep pfx ts (acc @ [tran]))"

text \<open>\<open>dict(trigger="", source=..., dest=...)\<close>\<close>

definition anchor :: "string \<Rightarrow> string list \<Rightarrow> string \<Rightarrow> string \<Rightarrow> transition" where
  "anchor sep pfx nm ini =
     \<lparr>trigger = Some '''',
      source = Some (join sep (pfx @ [nm]) @ ''_anchor''),
      dest = Some (join sep (pfx @ [nm, ini])),
      conditions = None, unless = None, label = None\<rparr>"

text \<open>
  The part of the state loop's body from \<open>ini = state.get("initial", [])\<close> to the append of
  the anchor. The default \<open>[]\<close> is a list, so an absent key behaves like a list:
  \<open>initial_name\<close> is \<open>None\<close> when \<open>isinstance(ini, list)\<close>, and otherwise the string
  \<open>ini.name if hasattr(ini, "name") else ini\<close>.
\<close>

definition initial_name :: "initial_value option \<Rightarrow> string option" where
  "initial_name v =
     (case v of
        None \<Rightarrow> None
      | Some (Ini_list _) \<Rightarrow> None
      | Some (Ini_named n) \<Rightarrow> Some n
      | Some (Ini_str s) \<Rightarrow> Some s)"

definition anchor_step :: "string \<Rightarrow> string list \<Rightarrow> scope \<Rightarrow> elements \<Rightarrow> py_error option \<times> elements" where
  "anchor_step sep pfx state st =
     (case initial_name (initial state) of
        None \<Rightarrow> (None, st)
      | Some ini \<Rightarrow>
          (case name state of
             None \<Rightarrow> (Some KeyError, st)
           | Some nm \<Rightarrow> (None, st\<lparr>el_transitions := el_transitions st @ [anchor sep pfx nm ini]\<rparr>)))"

text \<open>\<open>if state.get("children", []): queue.append((prefix + [state["name"]], state))\<close>\<close>

definition enqueue_step :: "string list \<Rightarrow> scope \<Rightarrow> elements \<Rightarrow> py_error option \<times> elements" where
  "enqueue_step pfx state st =
     (if get_list (children state) \<noteq> [] then
        (case name state of
           None \<Rightarrow> (Some KeyError, st)
         | Some nm \<Rightarrow> (None, st\<lparr>el_queue := el_queue st @ [(pfx @ [nm], state)]\<rparr>))
      else (None, st))"

definition state_body :: "string \<Rightarrow> string list \<Rightarrow> scope \<Rightarrow> elements \<Rightarrow> py_error option \<times> elements" where
  "state_body sep pfx state st =
     (let st1 = (if pfx = [] then st\<lparr>el_states := el_states st @ [state]\<rparr> else st)
      in (case anchor_step sep pfx state st1 of
            (Some e, st2) \<Rightarrow> (Some e, st2)
          | (None, st2) \<Rightarrow> enqueue_step pfx state st2))"

fun for_states ::
  "string \<Rightarrow> string list \<Rightarrow> scope list \<Rightarrow> elements \<Rightarrow> py_error option \<times> elements"
where
  "for_states sep pfx [] st = (None, st)"
| "for_states sep pfx (s # ss) st =
     (case state_body sep pfx s st of
        (Some e, st') \<Rightarrow> (Some e, st')
      | (None, st') \<Rightarrow> for_states sep pfx ss st')"

text \<open>\<open>scope.get("children", []) + scope.get("states", [])\<close>\<close>

definition sub_states :: "scope \<Rightarrow> scope list" where
  "sub_states scope = get_list (children scope) @ get_list (states scope)"

text \<open>One pass of the \<open>while queue\<close> body for the popped pair.\<close>

definition scope_body ::
  "string \<Rightarrow> string list \<Rightarrow> scope \<Rightarrow> elements \<Rightarrow> py_error option \<times> elements" where
  "scope_body sep pfx scope st =
     (case for_transitions sep pfx (get_list (transitions scope)) (el_transitions st) of
        (Some e, trs) \<Rightarrow> (Some e, st\<lparr>el_transitions := trs\<rparr>)
      | (None, trs) \<Rightarrow> for_states sep pfx (sub_states scope) (st\<lparr>el_transitions := trs\<rparr>))"

definition queue_size :: "(string list \<times> scope) list \<Rightarrow> nat" where
  "queue_size q = sum_list (map (\<lambda>(p, s). size s) q)"

lemma size_get_list_children: "sum_list (map size (get_list (children s))) + sum_list (map size (get_list (states s))) < size s"
proof (cases s)
  case (Scope n i c st t)
  have "sum_list (map size (get_list c)) \<le> size_option (size_list size) c"
    by (cases c) (simp_all add: get_list_def size_list_conv_sum_list)
  moreover have "sum_list (map size (get_list st)) \<le> size_option (size_list size) st"
    by (cases st) (simp_all add: get_list_def size_list_conv_sum_list)
  ultimately show ?thesis using Scope by simp
qed

lemma size_sub_states: "sum_list (map size (sub_states s)) < size s"
  using size_get_list_children [of s] by (simp add: sub_states_def)

lemma anchor_step_queue:
  "anchor_step sep pfx s st = (r, st') \<Longrightarrow> el_queue st' = el_queue st"
  by (auto simp: anchor_step_def split: option.splits)

lemma enqueue_step_size:
  "enqueue_step pfx s st = (r, st') \<Longrightarrow>
   queue_size (el_queue st') \<le> queue_size (el_queue st) + size s"
  by (auto simp: enqueue_step_def queue_size_def split: option.splits if_splits)

lemma state_body_size:
  "state_body sep pfx s st = (r, st') \<Longrightarrow>
   queue_size (el_queue st') \<le> queue_size (el_queue st) + size s"
  by (auto simp: state_body_def Let_def split: option.splits if_splits prod.splits
           dest!: anchor_step_queue enqueue_step_size)

lemma for_states_size:
  "for_states sep pfx ss st = (r, st') \<Longrightarrow>
   queue_size (el_queue st') \<le> queue_size (el_queue st) + sum_list (map size ss)"
proof (induction ss arbitrary: st)
  case Nil
  then show ?case by simp
next
  case (Cons s ss)
  obtain r1 st1 where b: "state_body sep pfx s st = (r1, st1)"
    by (cases "state_body sep pfx s st")
  show ?case
  proof (cases r1)
    case None
    with Cons.prems b have "for_states sep pfx ss st1 = (r, st')" by simp
    from Cons.IH [OF this] state_body_size [OF b] show ?thesis by simp
  next
    case (Some e)
    with Cons.prems b have "st' = st1" by simp
    with state_body_size [OF b] show ?thesis by simp
  qed
qed

lemma scope_body_size:
  "scope_body sep pfx s st = (r, st') \<Longrightarrow>
   queue_size (el_queue st') < queue_size (el_queue st) + size s"
  using size_sub_states [of s]
  by (auto simp: scope_body_def split: prod.splits option.splits dest!: for_states_size)

text \<open>
  \<open>while queue: prefix, scope = queue.pop(0); ...\<close>. The loop ends because every pair it
  appends holds a state of the scope it has just popped.
\<close>

function while_queue :: "string \<Rightarrow> elements \<Rightarrow> py_error option \<times> elements" where
  "while_queue sep st =
     (case el_queue st of
        [] \<Rightarrow> (None, st)
      | (pfx, scope) # rest \<Rightarrow>
          (case scope_body sep pfx scope (st\<lparr>el_queue := rest\<rparr>) of
             (Some e, st') \<Rightarrow> (Some e, st')
           | (None, st') \<Rightarrow> while_queue sep st'))"
  by pat_completeness auto
termination
proof (relation "measure (\<lambda>(sep, st). queue_size (el_queue st))", goal_cases)
  case 1
  show ?case by simp
next
  case (2 sep st x21 x22 x y xa ya)
  from 2 have b: "scope_body sep x y (st\<lparr>el_queue := x22\<rparr>) = (xa, ya)" by simp
  from 2 have q: "el_queue st = (x, y) # x22" by simp
  from scope_body_size [OF b] q show ?case by (simp add: queue_size_def)
qed

text \<open>
  The whole method: \<open>markup\<close> is what \<open>self.machine.get_markup_config()\<close> returned and
  \<open>sep\<close> is \<open>self.machine.state_cls.separator\<close>. \<open>except KeyError\<close> catches that exception
  only; the result carries the log lines written.
\<close>

definition get_elements ::
  "string \<Rightarrow> scope \<Rightarrow> py_error + ((scope list \<times> transition list) \<times> log_entry list)" where
  "get_elements sep markup =
     (case while_queue sep \<lparr>el_states = [], el_transitions = [], el_queue = [([], markup)]\<rparr> of
        (None, st) \<Rightarrow> Inr ((el_states st, el_transitions st), [])
      | (Some KeyError, st) \<Rightarrow>
          Inr ((el_states st, el_transitions st), [(ERROR, ''Graph creation incomplete!'')])
      | (Some e, st) \<Rightarrow> Inl e)"

subsection \<open>The walk, described without the loop\<close>

text \<open>
  What one declared transition looks like in the result: unchanged at the root, and with
  \<open>source\<close> and \<open>dest\<close> (where present) prefixed by the path otherwise.
\<close>

definition qualify :: "string \<Rightarrow> string list \<Rightarrow> transition \<Rightarrow> transition" where
  "qualify sep pfx t =
     (if pfx = [] then t
      else t\<lparr>source := map_option (\<lambda>s. join sep (pfx @ [s])) (source t),
             dest := map_option (\<lambda>d. join sep (pfx @ [d])) (dest t)\<rparr>)"

text \<open>The anchors one state contributes: one, or none.\<close>

definition anchors_of :: "string \<Rightarrow> string list \<Rightarrow> scope \<Rightarrow> transition list" where
  "anchors_of sep pfx state =
     (case (initial_name (initial state), name state) of
        (Some ini, Some nm) \<Rightarrow> [anchor sep pfx nm ini]
      | _ \<Rightarrow> [])"

text \<open>The queue entries one state contributes.\<close>

definition enqueued :: "string list \<Rightarrow> scope \<Rightarrow> (string list \<times> scope) list" where
  "enqueued pfx state =
     (case name state of
        Some nm \<Rightarrow> (if get_list (children state) \<noteq> [] then [(pfx @ [nm], state)] else [])
      | None \<Rightarrow> [])"

definition scope_transitions :: "string \<Rightarrow> string list \<times> scope \<Rightarrow> transition list" where
  "scope_transitions sep ps =
     map (qualify sep (fst ps)) (get_list (transitions (snd ps))) @
     concat (map (anchors_of sep (fst ps)) (sub_states (snd ps)))"

definition scope_states :: "string list \<times> scope \<Rightarrow> scope list" where
  "scope_states ps = (if fst ps = [] then sub_states (snd ps) else [])"

lemma enqueued_size: "queue_size (concat (map (enqueued pfx) ss)) \<le> sum_list (map size ss)"
  by (induction ss) (auto simp: enqueued_def queue_size_def split: option.splits)

text \<open>The scopes in the order the loop pops them.\<close>

function walked :: "(string list \<times> scope) list \<Rightarrow> (string list \<times> scope) list" where
  "walked [] = []"
| "walked ((pfx, scope) # rest) =
     (pfx, scope) # walked (rest @ concat (map (enqueued pfx) (sub_states scope)))"
  by pat_completeness auto
termination
proof (relation "measure queue_size", goal_cases)
  case 1
  show ?case by simp
next
  case (2 pfx scope rest)
  from enqueued_size [of pfx "sub_states scope"] size_sub_states [of scope]
  show ?case by (simp add: queue_size_def)
qed

definition flat_transitions :: "string \<Rightarrow> scope \<Rightarrow> transition list" where
  "flat_transitions sep markup = concat (map (scope_transitions sep) (walked [([], markup)]))"

subsection \<open>The loop against the description\<close>

text \<open>
  \<open>partial_of r out full\<close>: a loop that ended with \<open>r\<close> appended \<open>out\<close>, where a loop that
  runs to its end appends \<open>full\<close>. Without an exception the two are equal; with one, the
  exception is \<open>KeyError\<close> and \<open>out\<close> is what came before it.
\<close>

definition partial_of :: "py_error option \<Rightarrow> 'a list \<Rightarrow> 'a list \<Rightarrow> bool" where
  "partial_of r out full = (case r of None \<Rightarrow> out = full | Some e \<Rightarrow> e = KeyError \<and> prefix out full)"

lemma prefixed_copy_qualify: "prefixed_copy sep pfx t = Inr t' \<Longrightarrow> t' = qualify sep pfx t"
  by (auto simp: prefixed_copy_def qualify_def Let_def split: if_splits option.splits)

lemma prefixed_copy_error: "prefixed_copy sep pfx t = Inl e \<Longrightarrow> e = KeyError"
  by (auto simp: prefixed_copy_def Let_def split: if_splits option.splits)

lemma for_transitions_char:
  "for_transitions sep pfx ts acc = (r, acc') \<Longrightarrow>
   \<exists>out. acc' = acc @ out \<and> partial_of r out (map (qualify sep pfx) ts)"
proof (induction ts arbitrary: acc)
  case Nil
  then show ?case by (simp add: partial_of_def)
next
  case (Cons t ts)
  show ?case
  proof (cases "prefixed_copy sep pfx t")
    case (Inl e)
    with Cons.prems prefixed_copy_error [OF Inl] show ?thesis
      by (auto simp: partial_of_def)
  next
    case (Inr tran)
    with Cons.prems have "for_transitions sep pfx ts (acc @ [tran]) = (r, acc')" by simp
    from Cons.IH [OF this] obtain out where
      o: "acc' = (acc @ [tran]) @ out" "partial_of r out (map (qualify sep pfx) ts)" by blast
    have "partial_of r (tran # out) (map (qualify sep pfx) (t # ts))"
      using o(2) prefixed_copy_qualify [OF Inr] by (auto simp: partial_of_def split: option.splits)
    with o(1) show ?thesis by auto
  qed
qed

lemma partial_of_append:
  "partial_of None o1 f1 \<Longrightarrow> partial_of r o2 f2 \<Longrightarrow> partial_of r (o1 @ o2) (f1 @ f2)"
  by (auto simp: partial_of_def split: option.splits)

lemma partial_of_stop:
  "partial_of (Some e) o1 f1 \<Longrightarrow> partial_of (Some e) o1 (f1 @ f2)"
  by (auto simp: partial_of_def)

lemma state_body_char:
  "state_body sep pfx s st = (r, st') \<Longrightarrow>
   \<exists>out. el_transitions st' = el_transitions st @ out \<and>
     partial_of r out (anchors_of sep pfx s) \<and>
     el_states st' = el_states st @ (if pfx = [] then [s] else []) \<and>
     (r = None \<or> r = Some KeyError) \<and>
     (r = None \<longrightarrow> el_queue st' = el_queue st @ enqueued pfx s)"
  by (auto simp: state_body_def anchor_step_def enqueue_step_def anchors_of_def enqueued_def
                 partial_of_def Let_def split: option.splits if_splits prod.splits)

lemma for_states_char:
  "for_states sep pfx ss st = (r, st') \<Longrightarrow>
   \<exists>out sout. el_transitions st' = el_transitions st @ out \<and>
     partial_of r out (concat (map (anchors_of sep pfx) ss)) \<and>
     el_states st' = el_states st @ sout \<and>
     partial_of r sout (if pfx = [] then ss else []) \<and>
     (r = None \<longrightarrow> el_queue st' = el_queue st @ concat (map (enqueued pfx) ss))"
proof (induction ss arbitrary: st)
  case Nil
  then show ?case by (simp add: partial_of_def)
next
  case (Cons s ss)
  obtain r1 st1 where b: "state_body sep pfx s st = (r1, st1)"
    by (cases "state_body sep pfx s st")
  from state_body_char [OF b] obtain out1 where
    o1: "el_transitions st1 = el_transitions st @ out1"
        "partial_of r1 out1 (anchors_of sep pfx s)"
        "el_states st1 = el_states st @ (if pfx = [] then [s] else [])"
        "r1 = None \<or> r1 = Some KeyError"
        "r1 = None \<longrightarrow> el_queue st1 = el_queue st @ enqueued pfx s"
    by blast
  show ?case
  proof (cases r1)
    case None
    with Cons.prems b have "for_states sep pfx ss st1 = (r, st')" by simp
    from Cons.IH [OF this] obtain out2 sout2 where
      o2: "el_transitions st' = el_transitions st1 @ out2"
          "partial_of r out2 (concat (map (anchors_of sep pfx) ss))"
          "el_states st' = el_states st1 @ sout2"
          "partial_of r sout2 (if pfx = [] then ss else [])"
          "r = None \<longrightarrow> el_queue st' = el_queue st1 @ concat (map (enqueued pfx) ss)"
      by blast
    have t: "partial_of r (out1 @ out2) (concat (map (anchors_of sep pfx) (s # ss)))"
      using partial_of_append [OF _ o2(2)] o1(2) None by simp
    have "partial_of None (if pfx = [] then [s] else []) (if pfx = [] then [s] else [])"
      by (simp add: partial_of_def)
    from partial_of_append [OF this o2(4)]
    have u: "partial_of r ((if pfx = [] then [s] else []) @ sout2) (if pfx = [] then s # ss else [])"
      by (simp split: if_splits)
    have q: "r = None \<longrightarrow> el_queue st' = el_queue st @ concat (map (enqueued pfx) (s # ss))"
      using o1(5) o2(5) None by simp
    from o1(1) o1(3) o2(1) o2(3) t u q show ?thesis by auto
  next
    case (Some e)
    with Cons.prems b have e: "st' = st1" "r = r1" by simp_all
    from o1(4) Some have k: "r1 = Some KeyError" by simp
    have t: "partial_of r out1 (concat (map (anchors_of sep pfx) (s # ss)))"
      using partial_of_stop [of KeyError out1 "anchors_of sep pfx s"] o1(2) k e by simp
    have u: "partial_of r (if pfx = [] then [s] else []) (if pfx = [] then s # ss else [])"
      using k e by (simp add: partial_of_def)
    from o1(1) o1(3) e t u k show ?thesis by auto
  qed
qed

lemma scope_body_char:
  "scope_body sep pfx scope st = (r, st') \<Longrightarrow>
   \<exists>out sout. el_transitions st' = el_transitions st @ out \<and>
     partial_of r out (scope_transitions sep (pfx, scope)) \<and>
     el_states st' = el_states st @ sout \<and>
     partial_of r sout (scope_states (pfx, scope)) \<and>
     (r = None \<longrightarrow> el_queue st' = el_queue st @ concat (map (enqueued pfx) (sub_states scope)))"
proof -
  assume a: "scope_body sep pfx scope st = (r, st')"
  obtain r1 trs where f: "for_transitions sep pfx (get_list (transitions scope)) (el_transitions st) = (r1, trs)"
    by (cases "for_transitions sep pfx (get_list (transitions scope)) (el_transitions st)")
  from for_transitions_char [OF f] obtain out1 where
    o1: "trs = el_transitions st @ out1"
        "partial_of r1 out1 (map (qualify sep pfx) (get_list (transitions scope)))"
    by blast
  show ?thesis
  proof (cases r1)
    case None
    with a f have "for_states sep pfx (sub_states scope) (st\<lparr>el_transitions := trs\<rparr>) = (r, st')"
      by (simp add: scope_body_def)
    from for_states_char [OF this] obtain out2 sout where
      o2: "el_transitions st' = trs @ out2"
          "partial_of r out2 (concat (map (anchors_of sep pfx) (sub_states scope)))"
          "el_states st' = el_states st @ sout"
          "partial_of r sout (if pfx = [] then sub_states scope else [])"
          "r = None \<longrightarrow> el_queue st' = el_queue st @ concat (map (enqueued pfx) (sub_states scope))"
      by auto
    have "partial_of r (out1 @ out2) (scope_transitions sep (pfx, scope))"
      using partial_of_append [OF _ o2(2)] o1(2) None by (simp add: scope_transitions_def)
    with o1(1) o2 show ?thesis by (auto simp: scope_states_def)
  next
    case (Some e)
    with a f have e: "r = r1" "st' = st\<lparr>el_transitions := trs\<rparr>"
      by (simp_all add: scope_body_def)
    have "partial_of r out1 (scope_transitions sep (pfx, scope))"
      using partial_of_stop [of e out1] o1(2) Some e by (simp add: scope_transitions_def)
    moreover have "partial_of r [] (scope_states (pfx, scope))"
      using o1(2) Some e by (simp add: partial_of_def)
    ultimately show ?thesis using o1(1) e Some by auto
  qed
qed

lemma while_queue_char:
  "while_queue sep st = (r, st') \<Longrightarrow>
   \<exists>out sout. el_transitions st' = el_transitions st @ out \<and>
     partial_of r out (concat (map (scope_transitions sep) (walked (el_queue st)))) \<and>
     el_states st' = el_states st @ sout \<and>
     partial_of r sout (concat (map scope_states (walked (el_queue st))))"
proof (induction sep st arbitrary: r st' rule: while_queue.induct)
  case (1 sep st)
  show ?case
  proof (cases "el_queue st")
    case Nil
    with "1.prems" show ?thesis by (simp add: partial_of_def)
  next
    case (Cons ps rest)
    obtain pfx scope where ps: "ps = (pfx, scope)" by (cases ps)
    obtain r1 st1 where b: "scope_body sep pfx scope (st\<lparr>el_queue := rest\<rparr>) = (r1, st1)"
      by (cases "scope_body sep pfx scope (st\<lparr>el_queue := rest\<rparr>)")
    from scope_body_char [OF b] obtain out1 sout1 where
      o1: "el_transitions st1 = el_transitions st @ out1"
          "partial_of r1 out1 (scope_transitions sep (pfx, scope))"
          "el_states st1 = el_states st @ sout1"
          "partial_of r1 sout1 (scope_states (pfx, scope))"
          "r1 = None \<longrightarrow> el_queue st1 = rest @ concat (map (enqueued pfx) (sub_states scope))"
      by auto
    have w: "walked (el_queue st) =
             (pfx, scope) # walked (rest @ concat (map (enqueued pfx) (sub_states scope)))"
      using Cons ps by simp
    show ?thesis
    proof (cases r1)
      case None
      with "1.prems" Cons ps b have c: "while_queue sep st1 = (r, st')" by simp
      have "(None, st1) = scope_body sep pfx scope (st\<lparr>el_queue := rest\<rparr>)" using b None by simp
      from "1.IH" [OF Cons ps [symmetric] this refl c] obtain out2 sout2 where
        o2: "el_transitions st' = el_transitions st1 @ out2"
            "partial_of r out2 (concat (map (scope_transitions sep) (walked (el_queue st1))))"
            "el_states st' = el_states st1 @ sout2"
            "partial_of r sout2 (concat (map scope_states (walked (el_queue st1))))"
        by blast
      have q: "el_queue st1 = rest @ concat (map (enqueued pfx) (sub_states scope))"
        using o1(5) None by simp
      have t: "partial_of r (out1 @ out2) (concat (map (scope_transitions sep) (walked (el_queue st))))"
        using partial_of_append [OF _ o2(2)] o1(2) None q w by simp
      have u: "partial_of r (sout1 @ sout2) (concat (map scope_states (walked (el_queue st))))"
        using partial_of_append [OF _ o2(4)] o1(4) None q w by simp
      from o1(1) o1(3) o2(1) o2(3) t u show ?thesis by auto
    next
      case (Some e)
      with "1.prems" Cons ps b have e: "r = r1" "st' = st1" by simp_all
      have t: "partial_of r out1 (concat (map (scope_transitions sep) (walked (el_queue st))))"
        using partial_of_stop [of e out1] o1(2) Some e w by simp
      have u: "partial_of r sout1 (concat (map scope_states (walked (el_queue st))))"
        using partial_of_stop [of e sout1] o1(4) Some e w by simp
      from o1(1) o1(3) e t u show ?thesis by auto
    qed
  qed
qed


lemma enqueued_nonempty: "ps \<in> set (concat (map (enqueued pfx) ss)) \<Longrightarrow> fst ps \<noteq> []"
  by (auto simp: enqueued_def split: option.splits if_splits)

lemma walked_nested_states:
  "\<forall>ps\<in>set q. fst ps \<noteq> [] \<Longrightarrow> concat (map scope_states (walked q)) = []"
proof (induction q rule: walked.induct)
  case 1
  show ?case by simp
next
  case (2 pfx scope rest)
  have "\<forall>ps\<in>set (rest @ concat (map (enqueued pfx) (sub_states scope))). fst ps \<noteq> []"
    using "2.prems" enqueued_nonempty [of _ pfx "sub_states scope"] by auto
  from "2.IH" [OF this] "2.prems" show ?case by (simp add: scope_states_def)
qed

lemma walked_root_states: "concat (map scope_states (walked [([], m)])) = sub_states m"
proof -
  have "\<forall>ps\<in>set (concat (map (enqueued []) (sub_states m))). fst ps \<noteq> []"
    using enqueued_nonempty by blast
  from walked_nested_states [OF this] show ?thesis by (simp add: scope_states_def)
qed

lemma get_elements_char:
  "\<exists>sts trs lg. get_elements sep m = Inr ((sts, trs), lg) \<and>
     (lg = [] \<and> sts = sub_states m \<and> trs = flat_transitions sep m \<or>
      lg = [(ERROR, ''Graph creation incomplete!'')] \<and>
      prefix sts (sub_states m) \<and> prefix trs (flat_transitions sep m))"
proof -
  let ?st0 = "\<lparr>el_states = [], el_transitions = [], el_queue = [([], m)]\<rparr>"
  obtain r st where w: "while_queue sep ?st0 = (r, st)" by (cases "while_queue sep ?st0")
  from while_queue_char [OF w] obtain out sout where
    o1: "el_transitions st = el_transitions ?st0 @ out"
        "partial_of r out (concat (map (scope_transitions sep) (walked (el_queue ?st0))))"
        "el_states st = el_states ?st0 @ sout"
        "partial_of r sout (concat (map scope_states (walked (el_queue ?st0))))"
    by blast
  have q: "el_queue ?st0 = [([], m)]" by simp
  have o: "el_transitions st = out" "partial_of r out (flat_transitions sep m)"
          "el_states st = sout" "partial_of r sout (sub_states m)"
    using o1 by (simp_all only: q flat_transitions_def walked_root_states, simp_all)
  show ?thesis
  proof (cases r)
    case None
    with w o show ?thesis by (simp add: get_elements_def partial_of_def)
  next
    case (Some e)
    with o have "e = KeyError" by (simp add: partial_of_def)
    with Some w o show ?thesis by (simp add: get_elements_def partial_of_def)
  qed
qed

subsection \<open>When the loop runs to its end\<close>

text \<open>
  The subscripts of the loop are \<open>tran["source"]\<close>, under a non-empty prefix, and
  \<open>state["name"]\<close>, for a state with a non-list \<open>initial\<close> or with children.
  \<open>scope_ok\<close> says that a popped pair has these keys.
\<close>

definition scope_ok :: "string list \<times> scope \<Rightarrow> bool" where
  "scope_ok ps =
     ((fst ps \<noteq> [] \<longrightarrow> (\<forall>t\<in>set (get_list (transitions (snd ps))). source t \<noteq> None)) \<and>
      (\<forall>s\<in>set (sub_states (snd ps)).
         initial_name (initial s) \<noteq> None \<or> get_list (children s) \<noteq> [] \<longrightarrow> name s \<noteq> None))"

lemma for_transitions_ok:
  "for_transitions sep pfx ts acc = (None, acc') \<Longrightarrow> pfx \<noteq> [] \<Longrightarrow> \<forall>t\<in>set ts. source t \<noteq> None"
proof (induction ts arbitrary: acc)
  case Nil
  show ?case by simp
next
  case (Cons t ts)
  from Cons.prems obtain tran where
    c: "prefixed_copy sep pfx t = Inr tran" "for_transitions sep pfx ts (acc @ [tran]) = (None, acc')"
    by (auto split: sum.splits)
  from c(1) Cons.prems(2) have "source t \<noteq> None"
    by (auto simp: prefixed_copy_def split: option.splits)
  with Cons.IH [OF c(2) Cons.prems(2)] show ?case by simp
qed

lemma state_body_ok:
  "state_body sep pfx s st = (None, st') \<Longrightarrow>
   initial_name (initial s) \<noteq> None \<or> get_list (children s) \<noteq> [] \<Longrightarrow> name s \<noteq> None"
  by (auto simp: state_body_def anchor_step_def enqueue_step_def Let_def
           split: option.splits if_splits prod.splits)

lemma for_states_ok:
  "for_states sep pfx ss st = (None, st') \<Longrightarrow>
   \<forall>s\<in>set ss. initial_name (initial s) \<noteq> None \<or> get_list (children s) \<noteq> [] \<longrightarrow> name s \<noteq> None"
proof (induction ss arbitrary: st)
  case Nil
  show ?case by simp
next
  case (Cons s ss)
  from Cons.prems obtain st1 where
    c: "state_body sep pfx s st = (None, st1)" "for_states sep pfx ss st1 = (None, st')"
    by (auto split: prod.splits option.splits)
  from state_body_ok [OF c(1)] Cons.IH [OF c(2)] show ?case by auto
qed

lemma scope_body_ok: "scope_body sep pfx scope st = (None, st') \<Longrightarrow> scope_ok (pfx, scope)"
  by (auto simp: scope_body_def scope_ok_def split: prod.splits option.splits
           dest: for_transitions_ok for_states_ok)

lemma while_queue_ok:
  "while_queue sep st = (None, st') \<Longrightarrow> \<forall>ps\<in>set (walked (el_queue st)). scope_ok ps"
proof (induction sep st arbitrary: st' rule: while_queue.induct)
  case (1 sep st)
  show ?case
  proof (cases "el_queue st")
    case Nil
    then show ?thesis by simp
  next
    case (Cons ps rest)
    obtain pfx scope where ps: "ps = (pfx, scope)" by (cases ps)
    from "1.prems" Cons ps obtain st1 where
      b: "scope_body sep pfx scope (st\<lparr>el_queue := rest\<rparr>) = (None, st1)" and
      c: "while_queue sep st1 = (None, st')"
      by (auto split: prod.splits option.splits)
    from scope_body_char [OF b]
    have q: "el_queue st1 = rest @ concat (map (enqueued pfx) (sub_states scope))" by auto
    from "1.IH" [OF Cons ps [symmetric] b [symmetric] refl c]
    have "\<forall>ps\<in>set (walked (el_queue st1)). scope_ok ps" .
    with q scope_body_ok [OF b] Cons ps show ?thesis by simp
  qed
qed

lemma get_elements_ok:
  assumes "get_elements sep m = Inr ((sts, trs), [])"
  shows "sts = sub_states m \<and> trs = flat_transitions sep m \<and>
         (\<forall>ps\<in>set (walked [([], m)]). scope_ok ps)"
proof -
  let ?st0 = "\<lparr>el_states = [], el_transitions = [], el_queue = [([], m)]\<rparr>"
  obtain r st where w: "while_queue sep ?st0 = (r, st)" by (cases "while_queue sep ?st0")
  have r: "r = None"
  proof (cases r)
    case (Some e)
    with assms w show ?thesis by (cases e) (simp_all add: get_elements_def)
  qed simp
  have q: "el_queue ?st0 = [([], m)]" by simp
  from w r have "while_queue sep ?st0 = (None, st)" by simp
  from while_queue_ok [OF this]
  have ok: "\<forall>ps\<in>set (walked [([], m)]). scope_ok ps" by (simp only: q)
  from get_elements_char [of sep m] assms
  have "sts = sub_states m \<and> trs = flat_transitions sep m" by auto
  with ok show ?thesis by simp
qed


lemma for_transitions_root: "for_transitions sep [] ts acc = (None, acc @ ts)"
  by (induction ts arbitrary: acc) (simp_all add: prefixed_copy_def)

lemma for_transitions_complete:
  "\<forall>t\<in>set ts. source t \<noteq> None \<Longrightarrow> fst (for_transitions sep pfx ts acc) = None"
proof (induction ts arbitrary: acc)
  case Nil
  show ?case by simp
next
  case (Cons t ts)
  then obtain s where "source t = Some s" by auto
  then have "\<exists>tran. prefixed_copy sep pfx t = Inr tran"
    by (cases "dest t") (simp_all add: prefixed_copy_def Let_def)
  then obtain tran where "prefixed_copy sep pfx t = Inr tran" ..
  with Cons show ?case by simp
qed

lemma state_body_complete:
  "initial_name (initial s) \<noteq> None \<or> get_list (children s) \<noteq> [] \<longrightarrow> name s \<noteq> None \<Longrightarrow>
   fst (state_body sep pfx s st) = None"
  by (auto simp: state_body_def anchor_step_def enqueue_step_def Let_def
           split: option.splits if_splits prod.splits)

lemma for_states_complete:
  "\<forall>s\<in>set ss. initial_name (initial s) \<noteq> None \<or> get_list (children s) \<noteq> [] \<longrightarrow> name s \<noteq> None \<Longrightarrow>
   fst (for_states sep pfx ss st) = None"
proof (induction ss arbitrary: st)
  case Nil
  show ?case by simp
next
  case (Cons s ss)
  obtain r1 st1 where b: "state_body sep pfx s st = (r1, st1)"
    by (cases "state_body sep pfx s st")
  from Cons.prems state_body_complete [of s sep pfx st] b have "r1 = None" by simp
  with b Cons show ?case by simp
qed

lemma scope_body_complete: "scope_ok (pfx, scope) \<Longrightarrow> fst (scope_body sep pfx scope st) = None"
proof -
  assume ok: "scope_ok (pfx, scope)"
  obtain r1 trs where
    f: "for_transitions sep pfx (get_list (transitions scope)) (el_transitions st) = (r1, trs)"
    by (cases "for_transitions sep pfx (get_list (transitions scope)) (el_transitions st)")
  have "r1 = None"
  proof (cases "pfx = []")
    case True
    with f show ?thesis by (simp add: for_transitions_root)
  next
    case False
    with ok have "\<forall>t\<in>set (get_list (transitions scope)). source t \<noteq> None"
      by (simp add: scope_ok_def)
    from for_transitions_complete [OF this, of sep pfx "el_transitions st"] f show ?thesis by simp
  qed
  moreover from ok have "fst (for_states sep pfx (sub_states scope) (st\<lparr>el_transitions := trs\<rparr>)) = None"
    by (intro for_states_complete) (simp add: scope_ok_def)
  ultimately show ?thesis using f by (simp add: scope_body_def)
qed

lemma while_queue_complete:
  "\<forall>ps\<in>set (walked (el_queue st)). scope_ok ps \<Longrightarrow> fst (while_queue sep st) = None"
proof (induction sep st rule: while_queue.induct)
  case (1 sep st)
  show ?case
  proof (cases "el_queue st")
    case Nil
    then show ?thesis by simp
  next
    case (Cons ps rest)
    obtain pfx scope where ps: "ps = (pfx, scope)" by (cases ps)
    obtain r1 st1 where b: "scope_body sep pfx scope (st\<lparr>el_queue := rest\<rparr>) = (r1, st1)"
      by (cases "scope_body sep pfx scope (st\<lparr>el_queue := rest\<rparr>)")
    from "1.prems" Cons ps have ok: "scope_ok (pfx, scope)" by simp
    from scope_body_complete [OF ok, of sep "st\<lparr>el_queue := rest\<rparr>"] b have r1: "r1 = None" by simp
    from scope_body_char [OF b] r1
    have q: "el_queue st1 = rest @ concat (map (enqueued pfx) (sub_states scope))" by auto
    from "1.prems" Cons ps q have "\<forall>ps\<in>set (walked (el_queue st1)). scope_ok ps" by simp
    from "1.IH" [OF Cons ps [symmetric] _ r1 this] b
    have "fst (while_queue sep st1) = None" by simp
    with Cons ps b r1 show ?thesis by simp
  qed
qed

lemma get_elements_complete:
  assumes "\<forall>ps\<in>set (walked [([], m)]). scope_ok ps"
  shows "get_elements sep m = Inr ((sub_states m, flat_transitions sep m), [])"
proof -
  let ?st0 = "\<lparr>el_states = [], el_transitions = [], el_queue = [([], m)]\<rparr>"
  have q: "el_queue ?st0 = [([], m)]" by simp
  from assms have "\<forall>ps\<in>set (walked (el_queue ?st0)). scope_ok ps" by (simp only: q)
  from while_queue_complete [OF this, of sep]
  obtain st where w: "while_queue sep ?st0 = (None, st)"
    by (cases "while_queue sep ?st0") auto
  then have "\<exists>sts trs. get_elements sep m = Inr ((sts, trs), [])"
    by (simp add: get_elements_def)
  with get_elements_ok show ?thesis by blast
qed

subsection \<open>What is built before a missing key\<close>

text \<open>
  \<open>tran_ok\<close> and \<open>state_ok\<close> say that one transition, or one state, has the key the loop
  reads for it; a scope is \<open>scope_ok\<close> when all its transitions and states are.
  \<open>upto_first_bad P xs\<close> is \<open>xs\<close> up to and including its first element that fails \<open>P\<close>:
  the items the loop reaches.
\<close>

definition tran_ok :: "string list \<Rightarrow> transition \<Rightarrow> bool" where
  "tran_ok pfx t = (pfx = [] \<or> source t \<noteq> None)"

definition state_ok :: "scope \<Rightarrow> bool" where
  "state_ok s =
     ((initial_name (initial s) = None \<and> get_list (children s) = []) \<or> name s \<noteq> None)"

definition upto_first_bad :: "('a \<Rightarrow> bool) \<Rightarrow> 'a list \<Rightarrow> 'a list" where
  "upto_first_bad P xs = takeWhile P xs @ take 1 (dropWhile P xs)"

text \<open>
  What the loop has appended for one scope when it leaves it: the copies of the transitions
  before the first one without a source and, when there is none, the anchors of the states
  before the first one without a name. The states it has registered, at the root, include
  the state at which it stopped: that state is appended before its name is read.
\<close>

definition scope_built :: "string \<Rightarrow> string list \<times> scope \<Rightarrow> transition list" where
  "scope_built sep ps =
     map (qualify sep (fst ps)) (takeWhile (tran_ok (fst ps)) (get_list (transitions (snd ps)))) @
     (if list_all (tran_ok (fst ps)) (get_list (transitions (snd ps)))
      then concat (map (anchors_of sep (fst ps)) (takeWhile state_ok (sub_states (snd ps))))
      else [])"

definition scope_built_states :: "string list \<times> scope \<Rightarrow> scope list" where
  "scope_built_states ps =
     (if fst ps = [] then upto_first_bad state_ok (sub_states (snd ps)) else [])"

definition built_transitions :: "string \<Rightarrow> scope \<Rightarrow> transition list" where
  "built_transitions sep markup =
     concat (map (scope_built sep) (upto_first_bad scope_ok (walked [([], markup)])))"

lemma upto_first_bad_Nil: "upto_first_bad P [] = []"
  by (simp add: upto_first_bad_def)

lemma upto_first_bad_Cons:
  "upto_first_bad P (x # xs) = (if P x then x # upto_first_bad P xs else [x])"
  by (simp add: upto_first_bad_def)

lemma upto_first_bad_all: "list_all P xs \<Longrightarrow> upto_first_bad P xs = xs"
  by (induction xs) (simp_all add: upto_first_bad_Nil upto_first_bad_Cons)

lemma scope_ok_iff:
  "scope_ok ps =
     (list_all (tran_ok (fst ps)) (get_list (transitions (snd ps))) \<and>
      list_all state_ok (sub_states (snd ps)))"
  unfolding scope_ok_def tran_ok_def state_ok_def list_all_iff by auto

lemma prefixed_copy_exact:
  "prefixed_copy sep pfx t = (if tran_ok pfx t then Inr (qualify sep pfx t) else Inl KeyError)"
  by (cases "dest t") (auto simp: prefixed_copy_def qualify_def tran_ok_def Let_def split: option.splits)

lemma for_transitions_exact:
  "for_transitions sep pfx ts acc =
     (if list_all (tran_ok pfx) ts then None else Some KeyError,
      acc @ map (qualify sep pfx) (takeWhile (tran_ok pfx) ts))"
  by (induction ts arbitrary: acc) (simp_all add: prefixed_copy_exact)

lemma state_body_exact:
  "state_body sep pfx s st =
     (if state_ok s then None else Some KeyError,
      st\<lparr>el_states := el_states st @ (if pfx = [] then [s] else []),
         el_transitions := el_transitions st @ anchors_of sep pfx s,
         el_queue := el_queue st @ enqueued pfx s\<rparr>)"
  by (auto simp: state_body_def anchor_step_def enqueue_step_def anchors_of_def enqueued_def
                 state_ok_def Let_def split: option.splits)

lemma anchors_of_bad: "\<not> state_ok s \<Longrightarrow> anchors_of sep pfx s = []"
  by (auto simp: anchors_of_def state_ok_def split: option.splits)

lemma for_states_exact:
  "for_states sep pfx ss st =
     (if list_all state_ok ss then None else Some KeyError,
      st\<lparr>el_states := el_states st @ (if pfx = [] then upto_first_bad state_ok ss else []),
         el_transitions := el_transitions st @
            concat (map (anchors_of sep pfx) (takeWhile state_ok ss)),
         el_queue := el_queue st @ concat (map (enqueued pfx) (upto_first_bad state_ok ss))\<rparr>)"
proof (induction ss arbitrary: st)
  case Nil
  show ?case by (simp add: upto_first_bad_Nil)
next
  case (Cons s ss)
  show ?case
    by (simp add: state_body_exact Cons.IH upto_first_bad_Cons anchors_of_bad)
qed

lemma tran_ok_root: "list_all (tran_ok []) ts"
  by (simp add: list_all_iff tran_ok_def)

lemma scope_body_exact:
  "fst (scope_body sep pfx scope st) = (if scope_ok (pfx, scope) then None else Some KeyError)"
  "el_transitions (snd (scope_body sep pfx scope st)) =
     el_transitions st @ scope_built sep (pfx, scope)"
  "el_states (snd (scope_body sep pfx scope st)) =
     el_states st @ scope_built_states (pfx, scope)"
  "scope_ok (pfx, scope) \<Longrightarrow>
     el_queue (snd (scope_body sep pfx scope st)) =
     el_queue st @ concat (map (enqueued pfx) (sub_states scope))"
  by (auto simp: scope_body_def for_transitions_exact for_states_exact scope_ok_iff
                 scope_built_def scope_built_states_def upto_first_bad_all tran_ok_root)

lemma while_queue_exact:
  "fst (while_queue sep st) =
     (if list_all scope_ok (walked (el_queue st)) then None else Some KeyError) \<and>
   el_transitions (snd (while_queue sep st)) =
     el_transitions st @
     concat (map (scope_built sep) (upto_first_bad scope_ok (walked (el_queue st)))) \<and>
   el_states (snd (while_queue sep st)) =
     el_states st @
     concat (map scope_built_states (upto_first_bad scope_ok (walked (el_queue st))))"
proof (induction sep st rule: while_queue.induct)
  case (1 sep st)
  show ?case
  proof (cases "el_queue st")
    case Nil
    then show ?thesis by (simp add: upto_first_bad_Nil)
  next
    case (Cons ps rest)
    obtain pfx scope where ps: "ps = (pfx, scope)" by (cases ps)
    obtain r1 st1 where b: "scope_body sep pfx scope (st\<lparr>el_queue := rest\<rparr>) = (r1, st1)"
      by (cases "scope_body sep pfx scope (st\<lparr>el_queue := rest\<rparr>)")
    from scope_body_exact(1-3) [of sep pfx scope "st\<lparr>el_queue := rest\<rparr>"] b have
      r1: "r1 = (if scope_ok (pfx, scope) then None else Some KeyError)" and
      t1: "el_transitions st1 = el_transitions st @ scope_built sep (pfx, scope)" and
      s1: "el_states st1 = el_states st @ scope_built_states (pfx, scope)"
      by simp_all
    have w: "walked (el_queue st) =
             (pfx, scope) # walked (rest @ concat (map (enqueued pfx) (sub_states scope)))"
      using Cons ps by simp
    show ?thesis
    proof (cases "scope_ok (pfx, scope)")
      case True
      with r1 have n: "r1 = None" by simp
      from scope_body_exact(4) [OF True, of sep "st\<lparr>el_queue := rest\<rparr>"] b
      have q: "el_queue st1 = rest @ concat (map (enqueued pfx) (sub_states scope))" by simp
      from "1.IH" [OF Cons ps [symmetric] _ n] b n
      have ih: "fst (while_queue sep st1) =
                  (if list_all scope_ok (walked (el_queue st1)) then None else Some KeyError)"
               "el_transitions (snd (while_queue sep st1)) =
                  el_transitions st1 @
                  concat (map (scope_built sep) (upto_first_bad scope_ok (walked (el_queue st1))))"
               "el_states (snd (while_queue sep st1)) =
                  el_states st1 @
                  concat (map scope_built_states (upto_first_bad scope_ok (walked (el_queue st1))))"
        by simp_all
      have e: "while_queue sep st = while_queue sep st1"
        using Cons ps b n by (simp add: while_queue.simps [of sep st])
      show ?thesis
        unfolding e w ih q [symmetric] using True t1 s1
        by (simp add: upto_first_bad_Cons)
    next
      case False
      with r1 have k: "r1 = Some KeyError" by simp
      have e: "while_queue sep st = (Some KeyError, st1)"
        using Cons ps b k by (simp add: while_queue.simps [of sep st])
      show ?thesis unfolding e w using False t1 s1 by (simp add: upto_first_bad_Cons)
    qed
  qed
qed

lemma upto_first_bad_prefix_nonempty:
  "\<forall>ps\<in>set q. fst ps \<noteq> [] \<Longrightarrow>
   concat (map scope_built_states (upto_first_bad P (walked q))) = []"
proof -
  assume a: "\<forall>ps\<in>set q. fst ps \<noteq> []"
  have "set (upto_first_bad P (walked q)) \<subseteq> set (walked q)"
    unfolding upto_first_bad_def
    using set_takeWhileD [of _ P "walked q"] set_dropWhileD [of _ P "walked q"]
          in_set_takeD [of _ 1 "dropWhile P (walked q)"]
    by auto
  moreover have "\<forall>ps\<in>set (walked q). fst ps \<noteq> []"
    using a
  proof (induction q rule: walked.induct)
    case 1
    show ?case by simp
  next
    case (2 pfx scope rest)
    have "\<forall>ps\<in>set (rest @ concat (map (enqueued pfx) (sub_states scope))). fst ps \<noteq> []"
      using "2.prems" enqueued_nonempty [of _ pfx "sub_states scope"] by auto
    from "2.IH" [OF this] "2.prems" show ?case by simp
  qed
  ultimately show ?thesis by (auto simp: scope_built_states_def)
qed

lemma built_states_root:
  "concat (map scope_built_states (upto_first_bad scope_ok (walked [([], m)]))) =
   upto_first_bad state_ok (sub_states m)"
proof -
  have n: "\<forall>ps\<in>set (concat (map (enqueued []) (sub_states m))). fst ps \<noteq> []"
    using enqueued_nonempty by blast
  show ?thesis
  proof (cases "scope_ok ([], m)")
    case True
    then have "list_all state_ok (sub_states m)" by (simp add: scope_ok_iff)
    with True upto_first_bad_prefix_nonempty [OF n, of scope_ok] show ?thesis
      by (simp add: upto_first_bad_Cons scope_built_states_def upto_first_bad_all)
  next
    case False
    then show ?thesis by (simp add: upto_first_bad_Cons scope_built_states_def)
  qed
qed

lemma get_elements_exact:
  "get_elements sep m =
     Inr ((upto_first_bad state_ok (sub_states m), built_transitions sep m),
          if list_all scope_ok (walked [([], m)]) then []
          else [(ERROR, ''Graph creation incomplete!'')])"
proof -
  let ?init = "\<lparr>el_states = [], el_transitions = [], el_queue = [([], m)]\<rparr>"
  have q: "el_queue ?init = [([], m)]" by simp
  obtain r st where w: "while_queue sep ?init = (r, st)" by (cases "while_queue sep ?init")
  from while_queue_exact [of sep ?init] w have
    r: "r = (if list_all scope_ok (walked [([], m)]) then None else Some KeyError)" and
    t: "el_transitions st = built_transitions sep m" and
    s: "el_states st = upto_first_bad state_ok (sub_states m)"
    unfolding q built_transitions_def built_states_root [symmetric] by simp_all
  show ?thesis unfolding get_elements_def w using r t s by simp
qed

lemma queue_in_walked: "set q \<subseteq> set (walked q)"
proof (induction q rule: walked.induct)
  case 1
  show ?case by simp
next
  case (2 pfx scope rest)
  then show ?case by auto
qed

lemma walked_descends:
  "ps \<in> set (walked q) \<Longrightarrow> c \<in> set (sub_states (snd ps)) \<Longrightarrow>
   get_list (children c) \<noteq> [] \<Longrightarrow> name c = Some n \<Longrightarrow>
   (fst ps @ [n], c) \<in> set (walked q)"
proof (induction q rule: walked.induct)
  case 1
  then show ?case by simp
next
  case (2 pfx scope rest)
  let ?q = "rest @ concat (map (enqueued pfx) (sub_states scope))"
  show ?case
  proof (cases "ps = (pfx, scope)")
    case True
    with "2.prems" have "(fst ps @ [n], c) \<in> set (concat (map (enqueued pfx) (sub_states scope)))"
      by (auto simp: enqueued_def)
    then have "(fst ps @ [n], c) \<in> set ?q" by simp
    with queue_in_walked [of ?q] show ?thesis by auto
  next
    case False
    with "2.prems"(1) have "ps \<in> set (walked ?q)" by simp
    from "2.IH" [OF this "2.prems"(2-4)] show ?thesis by simp
  qed
qed

lemma part_in_concat_filter:
  assumes "x \<in> set xs"
  shows "length (filter P (f x)) \<le> length (filter P (concat (map f xs)))"
proof -
  from assms obtain ys zs where "xs = ys @ x # zs" by (auto dest: split_list)
  then show ?thesis by simp
qed

subsection \<open>Machines of the tests, as markup\<close>

text \<open>
  Markup with the nested machine of \<open>TestDiagramsNested\<close> (with an initial state and two
  transitions inside \<open>C\<close>); the four-fold transition of
  \<open>test_if_multiple_edges_are_supported\<close>, three-fold and inside a nested state; a markup
  whose second nested transition has no \<open>source\<close>; and one whose second state has no
  \<open>name\<close>.
\<close>

definition tr :: "string \<Rightarrow> string \<Rightarrow> string option \<Rightarrow> transition" where
  "tr trg src dst = \<lparr>trigger = Some trg, source = Some src, dest = dst,
                      conditions = None, unless = None, label = None\<rparr>"

definition leaf :: "string \<Rightarrow> scope" where
  "leaf nm = Scope (Some nm) None None None None"

definition nested_C1 :: scope where
  "nested_C1 = Scope (Some ''1'') None (Some [leaf ''a'', leaf ''b'', leaf ''c'']) None None"

definition nested_C :: scope where
  "nested_C = Scope (Some ''C'') (Some (Ini_str ''1''))
                (Some [nested_C1, leaf ''2'', leaf ''3''])
                None
                (Some [tr ''go'' ''2'' (Some ''3''), tr ''stay'' ''3'' None])"

definition nested_markup :: scope where
  "nested_markup =
     Scope None None None
       (Some [leaf ''A'', leaf ''B'', nested_C, leaf ''D''])
       (Some [tr ''walk'' ''A'' (Some ''B''), tr ''run'' ''B'' (Some ''C''),
              tr ''sprint'' ''C'' (Some ''D''), tr ''sprint'' ''C'' (Some ''B'')])"

definition multi_C :: scope where
  "multi_C = Scope (Some ''C'') (Some (Ini_str ''1'')) (Some [leaf ''1'', leaf ''2'']) None
               (Some [tr ''event_0'' ''1'' (Some ''2''), tr ''event_1'' ''1'' (Some ''2''),
                      tr ''event_2'' ''1'' (Some ''2'')])"

definition nested_multi_markup :: scope where
  "nested_multi_markup =
     Scope None None None (Some [leaf ''A'', multi_C]) (Some [tr ''walk'' ''A'' (Some ''C'')])"

definition broken_markup :: scope where
  "broken_markup =
     Scope None None None
       (Some [leaf ''A'',
              Scope (Some ''C'') (Some (Ini_str ''1'')) (Some [leaf ''1'', leaf ''2'']) None
                (Some [tr ''go'' ''1'' (Some ''2''),
                       \<lparr>trigger = Some ''lost'', source = None, dest = Some ''1'',
                        conditions = None, unless = None, label = None\<rparr>,
                       tr ''back'' ''2'' (Some ''1'')])])
       (Some [tr ''walk'' ''A'' (Some ''C'')])"

definition nameless_markup :: scope where
  "nameless_markup =
     Scope None None None
       (Some [Scope (Some ''B'') (Some (Ini_str ''x'')) (Some [leaf ''x'', leaf ''y'']) None
                (Some [tr ''hop'' ''x'' (Some ''y'')]),
              Scope None (Some (Ini_str ''1'')) (Some [leaf ''1'']) None None,
              leaf ''D''])
       (Some [tr ''walk'' ''B'' (Some ''D'')])"

subsection \<open>Facts used by several properties\<close>

lemma get_elements_root_prefix:
  assumes "get_elements sep m = Inr ((sts, trs), lg)"
  shows "prefix (get_list (transitions m)) trs"
proof -
  let ?init = "\<lparr>el_states = [], el_transitions = [], el_queue = [([], m)]\<rparr>"
  let ?ts = "get_list (transitions m)"
  obtain r st where w: "while_queue sep ?init = (r, st)" by (cases "while_queue sep ?init")
  with assms have trs: "trs = el_transitions st"
    by (auto simp: get_elements_def split: option.splits py_error.splits)
  let ?st = "\<lparr>el_states = [], el_transitions = ?ts, el_queue = []\<rparr>"
  obtain r1 st1 where f: "for_states sep [] (sub_states m) ?st = (r1, st1)"
    by (cases "for_states sep [] (sub_states m) ?st")
  from for_states_char [OF f] obtain out1 where o1: "el_transitions st1 = ?ts @ out1" by auto
  have b: "scope_body sep [] m (?init\<lparr>el_queue := []\<rparr>) = (r1, st1)"
    using f by (simp add: scope_body_def for_transitions_root)
  show ?thesis
  proof (cases r1)
    case None
    with w b have "while_queue sep st1 = (r, st)" by (simp add: while_queue.simps [of sep ?init])
    from while_queue_char [OF this] o1 trs show ?thesis by auto
  next
    case (Some e)
    with w b have "st = st1" by (simp add: while_queue.simps [of sep ?init])
    with o1 trs show ?thesis by simp
  qed
qed

lemma prefix_filter_length: "prefix xs ys \<Longrightarrow> length (filter P xs) \<le> length (filter P ys)"
  by (auto simp: prefix_def)

lemma anchors_of_cases:
  "name s \<noteq> None \<or> initial_name (initial s) = None \<Longrightarrow>
   (case initial_name (initial s) of
      None \<Rightarrow> anchors_of sep pfx s = []
    | Some ini \<Rightarrow>
        \<exists>nm. name s = Some nm \<and>
          anchors_of sep pfx s =
            [\<lparr>trigger = Some '''', source = Some (join sep (pfx @ [nm]) @ ''_anchor''),
              dest = Some (join sep (pfx @ [nm, ini])),
              conditions = None, unless = None, label = None\<rparr>])"
  by (auto simp: anchors_of_def anchor_def split: option.splits)

lemma qualify_in_scope:
  "t \<in> set (get_list (transitions (snd ps))) \<Longrightarrow> qualify sep (fst ps) t \<in> set (scope_transitions sep ps)"
  by (simp add: scope_transitions_def)

lemma scope_in_flat:
  "ps \<in> set (walked [([], m)]) \<Longrightarrow> x \<in> set (scope_transitions sep ps) \<Longrightarrow>
   x \<in> set (flat_transitions sep m)"
  unfolding flat_transitions_def by (simp only: set_concat set_map) blast

lemma qualify_nested:
  "pfx \<noteq> [] \<Longrightarrow> source t = Some s \<Longrightarrow>
   qualify sep pfx t =
     (case dest t of
        None \<Rightarrow> t\<lparr>source := Some (join sep (pfx @ [s]))\<rparr>
      | Some d \<Rightarrow> t\<lparr>source := Some (join sep (pfx @ [s])), dest := Some (join sep (pfx @ [d]))\<rparr>)"
  by (simp add: qualify_def split: option.splits)

section \<open>Properties of the flattener\<close>

text \<open>
  \<^bold>\<open>Claim C1\<close>, as stated, fails: only a state with a non-empty \<open>children\<close> list is put
  on the queue, so a transition declared in a state that holds its sub-states under \<open>states\<close>
  (or has none) is never read. It has no entry, and nothing is logged.
\<close>

theorem unwalked_scope_transition_lost:
  "get_elements ''_''
     (Scope None None None
        (Some [Scope (Some ''A'') None None (Some [leaf ''x'', leaf ''y''])
                 (Some [tr ''t'' ''x'' (Some ''y'')])])
        None) =
   Inr (([Scope (Some ''A'') None None (Some [leaf ''x'', leaf ''y''])
            (Some [tr ''t'' ''x'' (Some ''y'')])], []), []) \<and>
   transitions (Scope (Some ''A'') None None (Some [leaf ''x'', leaf ''y''])
                  (Some [tr ''t'' ''x'' (Some ''y'')])) =
   Some [tr ''t'' ''x'' (Some ''y'')]"
  by code_simp

text \<open>
  \<^bold>\<open>Claim C1\<close>, amended. The walked scopes are the root and, from a walked scope, every
  state of it with a name and a non-empty \<open>children\<close> list. When every walked scope has
  the keys the loop reads, the result is, scope by scope in the order of the walk, one entry
  per declared transition in the order of declaration, followed by the anchors of the
  scope's states; so the transitions of a walked scope that share a \<open>(source, dest)\<close> pair,
  or any other property, are as many entries of the result. The transitions of the root are
  a prefix of the result as they are, whatever happens later.
\<close>

theorem declared_transitions_all_emitted:
  "(\<forall>sts trs lg. get_elements sep markup = Inr ((sts, trs), lg) \<longrightarrow>
      prefix (get_list (transitions markup)) trs) \<and>
   ((\<forall>ps\<in>set (walked [([], markup)]). scope_ok ps) \<longrightarrow>
      get_elements sep markup =
        Inr ((sub_states markup,
              concat (map (\<lambda>ps. map (qualify sep (fst ps)) (get_list (transitions (snd ps))) @
                                 concat (map (anchors_of sep (fst ps)) (sub_states (snd ps))))
                          (walked [([], markup)]))), [])) \<and>
   (\<forall>ps\<in>set (walked [([], markup)]). \<forall>P.
      length (filter P (map (qualify sep (fst ps)) (get_list (transitions (snd ps)))))
      \<le> length (filter P
            (concat (map (\<lambda>ps. map (qualify sep (fst ps)) (get_list (transitions (snd ps))) @
                               concat (map (anchors_of sep (fst ps)) (sub_states (snd ps))))
                        (walked [([], markup)]))))) \<and>
   ([], markup) \<in> set (walked [([], markup)]) \<and>
   (\<forall>ps\<in>set (walked [([], markup)]). \<forall>c\<in>set (sub_states (snd ps)). \<forall>n.
      get_list (children c) \<noteq> [] \<and> name c = Some n \<longrightarrow>
      (fst ps @ [n], c) \<in> set (walked [([], markup)]))"
proof -
  let ?f = "\<lambda>ps. map (qualify sep (fst ps)) (get_list (transitions (snd ps))) @
                 concat (map (anchors_of sep (fst ps)) (sub_states (snd ps)))"
  let ?W = "walked [([], markup)]"
  have u: "flat_transitions sep markup = concat (map ?f ?W)"
    unfolding flat_transitions_def scope_transitions_def ..
  have a: "\<forall>sts trs lg. get_elements sep markup = Inr ((sts, trs), lg) \<longrightarrow>
             prefix (get_list (transitions markup)) trs"
    using get_elements_root_prefix by blast
  have b: "(\<forall>ps\<in>set ?W. scope_ok ps) \<longrightarrow>
           get_elements sep markup = Inr ((sub_states markup, concat (map ?f ?W)), [])"
    using get_elements_complete [of markup sep] unfolding u by blast
  have c: "\<forall>ps\<in>set ?W. \<forall>P.
             length (filter P (map (qualify sep (fst ps)) (get_list (transitions (snd ps)))))
             \<le> length (filter P (concat (map ?f ?W)))"
  proof (intro ballI allI)
    fix ps P
    assume "ps \<in> set ?W"
    from part_in_concat_filter [OF this, of P ?f]
    show "length (filter P (map (qualify sep (fst ps)) (get_list (transitions (snd ps)))))
          \<le> length (filter P (concat (map ?f ?W)))"
      by simp
  qed
  have d: "([], markup) \<in> set ?W" using queue_in_walked [of "[([], markup)]"] by simp
  have e: "\<forall>ps\<in>set ?W. \<forall>c\<in>set (sub_states (snd ps)). \<forall>n.
             get_list (children c) \<noteq> [] \<and> name c = Some n \<longrightarrow> (fst ps @ [n], c) \<in> set ?W"
    using walked_descends by blast
  from a b c d e show ?thesis by (intro conjI)
qed

theorem declared_transitions_all_emitted_witness:
  "list_all scope_ok (walked [([], nested_multi_markup)]) \<and>
   get_elements ''_'' nested_multi_markup =
     Inr (([leaf ''A'', multi_C],
           [tr ''walk'' ''A'' (Some ''C''), tr '''' ''C_anchor'' (Some ''C_1''),
            tr ''event_0'' ''C_1'' (Some ''C_2''), tr ''event_1'' ''C_1'' (Some ''C_2''),
            tr ''event_2'' ''C_1'' (Some ''C_2'')]), []) \<and>
   ([''C''], multi_C) \<in> set (walked [([], nested_multi_markup)]) \<and>
   3 \<le> length (filter (\<lambda>t. source t = Some ''C_1'' \<and> dest t = Some ''C_2'')
                  [tr ''walk'' ''A'' (Some ''C''), tr '''' ''C_anchor'' (Some ''C_1''),
                   tr ''event_0'' ''C_1'' (Some ''C_2''), tr ''event_1'' ''C_1'' (Some ''C_2''),
                   tr ''event_2'' ''C_1'' (Some ''C_2'')])"
proof -
  let ?W = "walked [([], nested_multi_markup)]"
  let ?F = "concat (map (\<lambda>ps. map (qualify ''_'' (fst ps)) (get_list (transitions (snd ps))) @
                                 concat (map (anchors_of ''_'' (fst ps)) (sub_states (snd ps))))
                          ?W)"
  let ?T = "[tr ''walk'' ''A'' (Some ''C''), tr '''' ''C_anchor'' (Some ''C_1''),
            tr ''event_0'' ''C_1'' (Some ''C_2''), tr ''event_1'' ''C_1'' (Some ''C_2''),
            tr ''event_2'' ''C_1'' (Some ''C_2'')]"
  let ?P = "\<lambda>t. source t = Some ''C_1'' \<and> dest t = Some ''C_2''"
  note t = declared_transitions_all_emitted [of "''_''" nested_multi_markup]
  have h: "list_all scope_ok ?W" by code_simp
  then have h': "\<forall>ps\<in>set ?W. scope_ok ps" by (simp add: list_all_iff)
  have s: "sub_states nested_multi_markup = [leaf ''A'', multi_C]" by code_simp
  have v: "?F = ?T" by code_simp
  from t h' have g: "get_elements ''_'' nested_multi_markup = Inr (([leaf ''A'', multi_C], ?T), [])"
    unfolding v s by blast
  have r: "([], nested_multi_markup) \<in> set ?W" using t by blast
  have c1: "multi_C \<in> set (sub_states (snd ([] :: string list, nested_multi_markup)))" by code_simp
  have c2: "get_list (children multi_C) \<noteq> [] \<and> name multi_C = Some ''C''" by code_simp
  from t r c1 c2 have "(fst ([] :: string list, nested_multi_markup) @ [''C''], multi_C) \<in> set ?W"
    by blast
  then have d: "([''C''], multi_C) \<in> set ?W" by simp
  have n: "length (filter ?P (map (qualify ''_'' (fst ([''C''], multi_C)))
                                 (get_list (transitions (snd ([''C''], multi_C)))))) = 3"
    by code_simp
  from t d have "length (filter ?P (map (qualify ''_'' (fst ([''C''], multi_C)))
                                 (get_list (transitions (snd ([''C''], multi_C))))))
                 \<le> length (filter ?P ?F)"
    by blast
  with n v have k: "3 \<le> length (filter ?P ?T)" by simp
  from h g d k show ?thesis by (intro conjI)
qed

text \<open>
  \<^bold>\<open>Claim C2\<close>, as stated, fails: the anchor does not depend on the state's children. A state
  with \<open>initial = "x"\<close> and no \<open>children\<close> key gets an anchor.
\<close>

theorem anchor_without_children:
  "get_elements ''_''
     (Scope None None None (Some [Scope (Some ''A'') (Some (Ini_str ''x'')) None None None]) None) =
   Inr (([Scope (Some ''A'') (Some (Ini_str ''x'')) None None None],
         [\<lparr>trigger = Some '''', source = Some ''A_anchor'', dest = Some ''A_x'',
           conditions = None, unless = None, label = None\<rparr>]), []) \<and>
   children (Scope (Some ''A'') (Some (Ini_str ''x'')) None None None) = None"
  by code_simp

text \<open>
  \<^bold>\<open>Claim C2\<close>, amended. When the walk runs to its end, the result is the declared
  transitions and the anchors of each walked scope, and a state of a walked scope contributes
  exactly one anchor, with empty trigger, source \<open><qualified name>_anchor\<close> and dest
  \<open><qualified name><separator><initial>\<close>, if its \<open>initial\<close> is present and not a list,
  and none otherwise, whether or not it has children.
\<close>

theorem anchor_iff_single_initial:
  assumes "get_elements sep markup = Inr ((sts, trs), [])"
  shows "trs = concat (map (\<lambda>ps. map (qualify sep (fst ps)) (get_list (transitions (snd ps))) @
                                  concat (map (anchors_of sep (fst ps)) (sub_states (snd ps))))
                           (walked [([], markup)])) \<and>
         (\<forall>ps\<in>set (walked [([], markup)]). \<forall>s\<in>set (sub_states (snd ps)).
            (case initial_name (initial s) of
               None \<Rightarrow> anchors_of sep (fst ps) s = []
             | Some ini \<Rightarrow>
                 \<exists>nm. name s = Some nm \<and>
                   anchors_of sep (fst ps) s =
                     [\<lparr>trigger = Some '''',
                       source = Some (join sep (fst ps @ [nm]) @ ''_anchor''),
                       dest = Some (join sep (fst ps @ [nm, ini])),
                       conditions = None, unless = None, label = None\<rparr>]))"
proof -
  from get_elements_ok [OF assms] have
    f: "trs = flat_transitions sep markup" and
    ok: "\<forall>ps\<in>set (walked [([], markup)]). scope_ok ps" by simp_all
  have u: "flat_transitions sep markup =
           concat (map (\<lambda>ps. map (qualify sep (fst ps)) (get_list (transitions (snd ps))) @
                              concat (map (anchors_of sep (fst ps)) (sub_states (snd ps))))
                       (walked [([], markup)]))"
    unfolding flat_transitions_def scope_transitions_def ..
  have "\<And>ps s. ps \<in> set (walked [([], markup)]) \<Longrightarrow> s \<in> set (sub_states (snd ps)) \<Longrightarrow>
          name s \<noteq> None \<or> initial_name (initial s) = None"
    using ok unfolding scope_ok_def by blast
  then show ?thesis using f u anchors_of_cases by blast
qed

theorem anchor_iff_single_initial_witness:
  "get_elements ''_'' nested_markup =
     Inr (([leaf ''A'', leaf ''B'', nested_C, leaf ''D''],
           [tr ''walk'' ''A'' (Some ''B''), tr ''run'' ''B'' (Some ''C''),
            tr ''sprint'' ''C'' (Some ''D''), tr ''sprint'' ''C'' (Some ''B''),
            tr '''' ''C_anchor'' (Some ''C_1''),
            tr ''go'' ''C_2'' (Some ''C_3''), tr ''stay'' ''C_3'' None]), []) \<and>
   anchors_of ''_'' [] nested_C = [tr '''' ''C_anchor'' (Some ''C_1'')] \<and>
   anchors_of ''_'' [''C''] nested_C1 = []"
proof -
  have h: "get_elements ''_'' nested_markup =
     Inr (([leaf ''A'', leaf ''B'', nested_C, leaf ''D''],
           [tr ''walk'' ''A'' (Some ''B''), tr ''run'' ''B'' (Some ''C''),
            tr ''sprint'' ''C'' (Some ''D''), tr ''sprint'' ''C'' (Some ''B''),
            tr '''' ''C_anchor'' (Some ''C_1''),
            tr ''go'' ''C_2'' (Some ''C_3''), tr ''stay'' ''C_3'' None]), [])"
    by code_simp
  have w1: "([], nested_markup) \<in> set (walked [([], nested_markup)])" by code_simp
  have w2: "([''C''], nested_C) \<in> set (walked [([], nested_markup)])" by code_simp
  have s1: "nested_C \<in> set (sub_states (snd ([] :: string list, nested_markup)))" by code_simp
  have s2: "nested_C1 \<in> set (sub_states (snd ([''C''], nested_C)))" by code_simp
  have i1: "initial_name (initial nested_C) = Some ''1''" by code_simp
  have i2: "initial_name (initial nested_C1) = None" by code_simp
  have n1: "name nested_C = Some ''C''" by code_simp
  from anchor_iff_single_initial [OF h] w1 s1 have
    "case initial_name (initial nested_C) of
       None \<Rightarrow> anchors_of ''_'' (fst ([] :: string list, nested_markup)) nested_C = []
     | Some ini \<Rightarrow>
         \<exists>nm. name nested_C = Some nm \<and>
           anchors_of ''_'' (fst ([] :: string list, nested_markup)) nested_C =
             [\<lparr>trigger = Some '''',
               source = Some (join ''_'' (fst ([] :: string list, nested_markup) @ [nm]) @ ''_anchor''),
               dest = Some (join ''_'' (fst ([] :: string list, nested_markup) @ [nm, ini])),
               conditions = None, unless = None, label = None\<rparr>]"
    by blast
  with i1 n1 have a1: "anchors_of ''_'' [] nested_C = [tr '''' ''C_anchor'' (Some ''C_1'')]"
    by (simp add: tr_def)
  from anchor_iff_single_initial [OF h] w2 s2 have
    "case initial_name (initial nested_C1) of
       None \<Rightarrow> anchors_of ''_'' (fst ([''C''], nested_C)) nested_C1 = []
     | Some ini \<Rightarrow>
         \<exists>nm. name nested_C1 = Some nm \<and>
           anchors_of ''_'' (fst ([''C''], nested_C)) nested_C1 =
             [\<lparr>trigger = Some '''',
               source = Some (join ''_'' (fst ([''C''], nested_C) @ [nm]) @ ''_anchor''),
               dest = Some (join ''_'' (fst ([''C''], nested_C) @ [nm, ini])),
               conditions = None, unless = None, label = None\<rparr>]"
    by blast
  with i2 have a2: "anchors_of ''_'' [''C''] nested_C1 = []" by simp
  from h a1 a2 show ?thesis by simp
qed

text \<open>
  \<^bold>\<open>Claim C3.\<close> When the walk runs to its end, a transition declared in a walked scope is in
  the result as it is when the scope's prefix is empty; under a non-empty prefix it has a
  source, and the result holds its copy with the source joined to the prefix, and with the
  dest joined to the prefix exactly when it has one.
\<close>

theorem nested_transitions_prefixed:
  assumes "get_elements sep markup = Inr ((sts, trs), [])"
  shows "\<forall>ps\<in>set (walked [([], markup)]). \<forall>t\<in>set (get_list (transitions (snd ps))).
           (if fst ps = [] then t \<in> set trs
            else \<exists>s. source t = Some s \<and>
                   (case dest t of
                      None \<Rightarrow> t\<lparr>source := Some (join sep (fst ps @ [s]))\<rparr>
                    | Some d \<Rightarrow> t\<lparr>source := Some (join sep (fst ps @ [s])),
                                  dest := Some (join sep (fst ps @ [d]))\<rparr>) \<in> set trs)"
proof (intro ballI)
  fix ps t
  assume ps: "ps \<in> set (walked [([], markup)])" and t: "t \<in> set (get_list (transitions (snd ps)))"
  from get_elements_ok [OF assms] have
    f: "trs = flat_transitions sep markup" and
    ok: "\<forall>ps\<in>set (walked [([], markup)]). scope_ok ps" by simp_all
  from scope_in_flat [OF ps qualify_in_scope [OF t]] f
  have q: "qualify sep (fst ps) t \<in> set trs" by simp
  show "if fst ps = [] then t \<in> set trs
        else \<exists>s. source t = Some s \<and>
               (case dest t of
                  None \<Rightarrow> t\<lparr>source := Some (join sep (fst ps @ [s]))\<rparr>
                | Some d \<Rightarrow> t\<lparr>source := Some (join sep (fst ps @ [s])),
                              dest := Some (join sep (fst ps @ [d]))\<rparr>) \<in> set trs"
  proof (cases "fst ps = []")
    case True
    with q show ?thesis by (simp add: qualify_def)
  next
    case False
    from ok ps have "scope_ok ps" by blast
    with False t have "source t \<noteq> None" unfolding scope_ok_def by blast
    then obtain s where s: "source t = Some s" by auto
    from q qualify_nested [OF False s, of sep] False s show ?thesis by simp
  qed
qed

theorem nested_transitions_prefixed_witness:
  "get_elements ''_'' nested_markup =
     Inr (([leaf ''A'', leaf ''B'', nested_C, leaf ''D''],
           [tr ''walk'' ''A'' (Some ''B''), tr ''run'' ''B'' (Some ''C''),
            tr ''sprint'' ''C'' (Some ''D''), tr ''sprint'' ''C'' (Some ''B''),
            tr '''' ''C_anchor'' (Some ''C_1''),
            tr ''go'' ''C_2'' (Some ''C_3''), tr ''stay'' ''C_3'' None]), []) \<and>
   (\<exists>s. source (tr ''stay'' ''3'' None) = Some s \<and>
      (case dest (tr ''stay'' ''3'' None) of
         None \<Rightarrow> (tr ''stay'' ''3'' None)\<lparr>source := Some (join ''_'' ([''C''] @ [s]))\<rparr>
       | Some d \<Rightarrow> (tr ''stay'' ''3'' None)\<lparr>source := Some (join ''_'' ([''C''] @ [s])),
                                             dest := Some (join ''_'' ([''C''] @ [d]))\<rparr>)
      \<in> set [tr ''walk'' ''A'' (Some ''B''), tr ''run'' ''B'' (Some ''C''),
              tr ''sprint'' ''C'' (Some ''D''), tr ''sprint'' ''C'' (Some ''B''),
              tr '''' ''C_anchor'' (Some ''C_1''),
              tr ''go'' ''C_2'' (Some ''C_3''), tr ''stay'' ''C_3'' None])"
proof -
  have h: "get_elements ''_'' nested_markup =
     Inr (([leaf ''A'', leaf ''B'', nested_C, leaf ''D''],
           [tr ''walk'' ''A'' (Some ''B''), tr ''run'' ''B'' (Some ''C''),
            tr ''sprint'' ''C'' (Some ''D''), tr ''sprint'' ''C'' (Some ''B''),
            tr '''' ''C_anchor'' (Some ''C_1''),
            tr ''go'' ''C_2'' (Some ''C_3''), tr ''stay'' ''C_3'' None]), [])"
    by code_simp
  have w: "([''C''], nested_C) \<in> set (walked [([], nested_markup)])" by code_simp
  have t: "tr ''stay'' ''3'' None \<in> set (get_list (transitions (snd ([''C''], nested_C))))"
    by code_simp
  have n: "fst ([''C''], nested_C) \<noteq> []" by simp
  from nested_transitions_prefixed [OF h, THEN bspec, OF w, THEN bspec, OF t] n
  have "\<exists>s. source (tr ''stay'' ''3'' None) = Some s \<and>
      (case dest (tr ''stay'' ''3'' None) of
         None \<Rightarrow> (tr ''stay'' ''3'' None)\<lparr>source := Some (join ''_'' ([''C''] @ [s]))\<rparr>
       | Some d \<Rightarrow> (tr ''stay'' ''3'' None)\<lparr>source := Some (join ''_'' ([''C''] @ [s])),
                                             dest := Some (join ''_'' ([''C''] @ [d]))\<rparr>)
      \<in> set [tr ''walk'' ''A'' (Some ''B''), tr ''run'' ''B'' (Some ''C''),
              tr ''sprint'' ''C'' (Some ''D''), tr ''sprint'' ''C'' (Some ''B''),
              tr '''' ''C_anchor'' (Some ''C_1''),
              tr ''go'' ''C_2'' (Some ''C_3''), tr ''stay'' ''C_3'' None]"
    by (simp only: fst_conv if_False)
  with h show ?thesis by (rule conjI)
qed

text \<open>
  \<^bold>\<open>Claim C8.\<close> \<open>_get_elements\<close> always returns its two lists and never raises: the only
  exception of the loop is \<open>KeyError\<close>, and it is caught. The lists are exactly what was
  built before the failure: the states of the root up to and including the first one whose
  name is missing, and, for the walked scopes up to and including the first one with a
  missing key, what \<open>scope_built\<close> gives. They are prefixes of the full walk's lists. An
  error line is logged exactly when a walked scope has a missing key.
\<close>

theorem missing_key_recovered:
  "get_elements sep markup =
     Inr ((upto_first_bad state_ok (sub_states markup),
           concat (map (scope_built sep) (upto_first_bad scope_ok (walked [([], markup)])))),
          if list_all scope_ok (walked [([], markup)]) then []
          else [(ERROR, ''Graph creation incomplete!'')]) \<and>
   prefix (upto_first_bad state_ok (sub_states markup)) (sub_states markup) \<and>
   prefix (concat (map (scope_built sep) (upto_first_bad scope_ok (walked [([], markup)]))))
          (flat_transitions sep markup)"
proof -
  note e = get_elements_exact [of sep markup, unfolded built_transitions_def]
  from get_elements_char [of sep markup] e show ?thesis by auto
qed

theorem missing_key_recovered_witness:
  "get_elements ''_'' broken_markup =
     Inr ((sub_states broken_markup,
           [tr ''walk'' ''A'' (Some ''C''), tr '''' ''C_anchor'' (Some ''C_1''),
            tr ''go'' ''C_1'' (Some ''C_2'')]),
          [(ERROR, ''Graph creation incomplete!'')]) \<and>
   get_elements ''_'' nameless_markup =
     Inr ((take 2 (sub_states nameless_markup),
           [tr ''walk'' ''B'' (Some ''D''), tr '''' ''B_anchor'' (Some ''B_x'')]),
          [(ERROR, ''Graph creation incomplete!'')])"
proof -
  have a: "get_elements ''_'' broken_markup =
     Inr ((sub_states broken_markup,
           [tr ''walk'' ''A'' (Some ''C''), tr '''' ''C_anchor'' (Some ''C_1''),
            tr ''go'' ''C_1'' (Some ''C_2'')]),
          [(ERROR, ''Graph creation incomplete!'')])"
    unfolding missing_key_recovered [of "''_''" broken_markup, THEN conjunct1] by code_simp
  have b: "get_elements ''_'' nameless_markup =
     Inr ((take 2 (sub_states nameless_markup),
           [tr ''walk'' ''B'' (Some ''D''), tr '''' ''B_anchor'' (Some ''B_x'')]),
          [(ERROR, ''Graph creation incomplete!'')])"
    unfolding missing_key_recovered [of "''_''" nameless_markup, THEN conjunct1] by code_simp
  from a b show ?thesis by (rule conjI)
qed

section \<open>Models, graphs and the machine\<close>

text \<open>
  Values a model attribute can hold. \<open>Str\<close> is a string; \<open>Named\<close> is an object with a
  \<open>name\<close> attribute (an enum member or a state object); \<open>Seq\<close> is a list, tuple or set,
  in iteration order; \<open>Callable\<close> is a method of the model's own; \<open>Bound_get_graph m\<close> is
  \<open>partial(self._get_graph, mod)\<close> for the model with identity \<open>m\<close>.
\<close>

datatype pyval =
    Str string
  | Named string
  | Seq "pyval list"
  | Callable string
  | Bound_get_graph nat

text \<open>\<open>hasattr(state, "name")\<close>\<close>

fun has_name :: "pyval \<Rightarrow> bool" where
  "has_name (Named n) = True"
| "has_name v = False"

text \<open>The generator \<open>_flatten\<close>, as the list of what it yields.\<close>

fun flatten :: "pyval list \<Rightarrow> pyval list" where
  "flatten [] = []"
| "flatten (Seq xs # rest) = flatten xs @ flatten rest"
| "flatten (elem # rest) = elem # flatten rest"

text \<open>
  The graph classes are abstract in this module: a graph is known by the calls it has
  received, in order. The constructor \<open>BaseGraph.__init__\<close> calls \<open>generate\<close>.
\<close>

datatype graph_call =
    Generate
  | Reset_styling
  | Set_previous_transition string string
  | Set_node_style pyval string

type_synonym graph = "graph_call list"

text \<open>What \<open>grph.get_graph(title=..., roi_state=...)\<close> returns: made from the graph and the two arguments.\<close>

datatype drawable = Drawable graph "string option" "pyval option"

text \<open>
  The machine and the objects it works on. \<open>objects\<close> gives each object, by identity, its
  attributes (\<open>getattr\<close>, \<open>hasattr\<close>, \<open>setattr\<close>); the machine itself is the object
  \<open>self_id\<close>. \<open>model_graphs\<close> is the dict keyed by \<open>id(model)\<close>.
\<close>

record world =
  objects :: "nat \<Rightarrow> string \<rightharpoonup> pyval"
  model_graphs :: "nat \<rightharpoonup> graph"
  title :: string
  model_attribute :: string
  self_id :: nat
  logged :: "log_entry list"

text \<open>
  The loop \<open>for state in ...: graph.set_node_style(self.dest if hasattr(state, "name") else
  state, "active")\<close>. \<open>self_dest\<close> is the attribute \<open>dest\<close> of \<open>self\<close>, \<open>None\<close> when \<open>self\<close>
  has none: reading it then raises \<open>AttributeError\<close>, after the calls already made.
\<close>

fun set_active :: "pyval option \<Rightarrow> pyval list \<Rightarrow> graph \<Rightarrow> py_error option \<times> graph" where
  "set_active self_dest [] g = (None, g)"
| "set_active self_dest (state # rest) g =
     (if has_name state then
        (case self_dest of
           None \<Rightarrow> (Some AttributeError, g)
         | Some d \<Rightarrow> set_active self_dest rest (g @ [Set_node_style d ''active'']))
      else set_active self_dest rest (g @ [Set_node_style state ''active'']))"

subsection \<open>\<open>GraphMachine._get_graph\<close>\<close>

text \<open>
  The \<open>if force_new:\<close> block. \<open>listify\<close> is \<open>transitions.core.listify\<close>, which is not part of
  this module, and is a parameter. In this method \<open>self\<close> is the machine, so \<open>self.dest\<close> is
  an attribute of the machine object.
\<close>

definition build_graph :: "(pyval \<Rightarrow> pyval list) \<Rightarrow> nat \<Rightarrow> world \<Rightarrow> world" where
  "build_graph listify model w =
     (let grph = [Generate];
          w1 = w\<lparr>model_graphs := (model_graphs w)(model \<mapsto> grph)\<rparr>
      in (case objects w1 model (model_attribute w1) of
            None \<Rightarrow> w1\<lparr>logged := logged w1 @ [(INFO, ''Could not set active state of diagram'')]\<rparr>
          | Some v \<Rightarrow>
              (case set_active (objects w1 (self_id w1) ''dest'') (flatten (listify v)) grph of
                 (None, grph') \<Rightarrow> w1\<lparr>model_graphs := (model_graphs w1)(model \<mapsto> grph')\<rparr>
               | (Some e, grph') \<Rightarrow>
                   w1\<lparr>model_graphs := (model_graphs w1)(model \<mapsto> grph'),
                      logged := logged w1 @ [(INFO, ''Could not set active state of diagram'')]\<rparr>)))"

text \<open>The \<open>return\<close> statement: the argument \<open>roi_state\<close> is evaluated before the call.\<close>

definition return_graph :: "nat \<Rightarrow> string option \<Rightarrow> bool \<Rightarrow> graph \<Rightarrow> world \<Rightarrow> (py_error + drawable) \<times> world" where
  "return_graph model ttl show_roi grph w =
     (if show_roi then
        (case objects w model (model_attribute w) of
           None \<Rightarrow> (Inl AttributeError, w)
         | Some v \<Rightarrow> (Inr (Drawable grph ttl (Some v)), w))
      else (Inr (Drawable grph ttl None), w))"

lemma build_graph_entry: "model_graphs (build_graph listify model w) model \<noteq> None"
  by (simp add: build_graph_def Let_def split: option.splits prod.splits)

text \<open>
  The method calls itself, with \<open>force_new=True\<close>, when the lookup raises \<open>KeyError\<close>; after
  the \<open>force_new\<close> block the lookup finds the entry, so the call is never nested twice.
\<close>

function get_graph ::
  "(pyval \<Rightarrow> pyval list) \<Rightarrow> nat \<Rightarrow> string option \<Rightarrow> bool \<Rightarrow> bool \<Rightarrow> world \<Rightarrow> (py_error + drawable) \<times> world"
where
  "get_graph listify model ttl force_new show_roi w =
     (let w1 = (if force_new then build_graph listify model w else w)
      in (case model_graphs w1 model of
            Some grph \<Rightarrow> return_graph model ttl show_roi grph w1
          | None \<Rightarrow>
              (case get_graph listify model ttl True False w1 of
                 (Inl e, w2) \<Rightarrow> (Inl e, w2)
               | (Inr _, w2) \<Rightarrow>
                   (case model_graphs w2 model of
                      None \<Rightarrow> (Inl KeyError, w2)
                    | Some grph \<Rightarrow> return_graph model ttl show_roi grph w2))))"
  by pat_completeness auto

termination
proof (relation "measure (\<lambda>(listify, model, ttl, force_new, show_roi, w). if force_new then 0 else 1)",
       goal_cases)
  case 1
  show ?case by simp
next
  case (2 listify model ttl force_new show_roi w x)
  then show ?case using build_graph_entry [of listify model w] by (auto split: if_splits)
qed

declare get_graph.simps [simp del]

subsection \<open>\<open>TransitionGraphSupport._change_state\<close>\<close>

text \<open>The transition object: \<open>self.source\<close> and \<open>self.dest\<close>.\<close>

record transition_obj =
  tr_source :: string
  tr_dest :: string

text \<open>
  \<open>core_change_state\<close> is \<open>super()._change_state(event_data)\<close>, the state change of the
  machine with its hooks: not part of this module, so a parameter that may read and change
  the whole world, or raise. \<open>model\<close> is \<open>id(event_data.model)\<close>, and the machine of
  \<open>event_data\<close> is the machine of the world. Here \<open>self\<close> is the transition, which has a
  \<open>dest\<close>.
\<close>

definition change_state ::
  "(pyval \<Rightarrow> pyval list) \<Rightarrow> (world \<Rightarrow> (py_error + unit) \<times> world) \<Rightarrow> transition_obj \<Rightarrow> nat \<Rightarrow>
   world \<Rightarrow> (py_error + unit) \<times> world" where
  "change_state listify core_change_state self model w =
     (case model_graphs w model of
        None \<Rightarrow> (Inl KeyError, w)
      | Some graph \<Rightarrow>
          let graph = graph @ [Reset_styling];
              graph = graph @ [Set_previous_transition (tr_source self) (tr_dest self)];
              w1 = w\<lparr>model_graphs := (model_graphs w)(model \<mapsto> graph)\<rparr>
          in (case core_change_state w1 of
                (Inl e, w2) \<Rightarrow> (Inl e, w2)
              | (Inr _, w2) \<Rightarrow>
                  (case model_graphs w2 model of
                     None \<Rightarrow> (Inl KeyError, w2)
                   | Some graph \<Rightarrow>
                       (case objects w2 model (model_attribute w2) of
                          None \<Rightarrow> (Inl AttributeError, w2)
                        | Some v \<Rightarrow>
                            (case set_active (Some (Str (tr_dest self))) (flatten (listify v)) graph of
                               (Some e, graph') \<Rightarrow>
                                 (Inl e, w2\<lparr>model_graphs := (model_graphs w2)(model \<mapsto> graph')\<rparr>)
                             | (None, graph') \<Rightarrow>
                                 (Inr (), w2\<lparr>model_graphs := (model_graphs w2)(model \<mapsto> graph')\<rparr>))))))"

subsection \<open>\<open>GraphMachine.add_model\<close>\<close>

text \<open>
  An entry of \<open>listify(model)\<close>: the literal \<open>self.self_literal\<close>, which stands for the machine,
  or a model object.
\<close>

datatype model_ref = Self_literal | Model nat

definition resolve :: "world \<Rightarrow> model_ref \<Rightarrow> nat" where
  "resolve w m = (case m of Self_literal \<Rightarrow> self_id w | Model i \<Rightarrow> i)"

text \<open>The \<open>for mod in models\<close> loop.\<close>

fun bind_models :: "(pyval \<Rightarrow> pyval list) \<Rightarrow> model_ref list \<Rightarrow> world \<Rightarrow> (py_error + unit) \<times> world" where
  "bind_models listify [] w = (Inr (), w)"
| "bind_models listify (m # ms) w =
     (let mdl = resolve w m
      in if objects w mdl ''get_graph'' \<noteq> None then (Inl AttributeError, w)
         else
           let w1 = w\<lparr>objects := (objects w)(mdl := (objects w mdl)(''get_graph'' \<mapsto> Bound_get_graph mdl))\<rparr>
           in (case get_graph listify mdl (Some (title w1)) True False w1 of
                 (Inl e, w2) \<Rightarrow> (Inl e, w2)
               | (Inr _, w2) \<Rightarrow> bind_models listify ms w2))"

text \<open>
  \<open>core_add_model\<close> is \<open>super().add_model(models, initial)\<close>, the registration of the base
  class: not part of this module, so a parameter. \<open>models\<close> is \<open>listify(model)\<close>.
\<close>

definition add_model ::
  "(pyval \<Rightarrow> pyval list) \<Rightarrow> (model_ref list \<Rightarrow> pyval option \<Rightarrow> world \<Rightarrow> (py_error + unit) \<times> world) \<Rightarrow>
   model_ref list \<Rightarrow> pyval option \<Rightarrow> world \<Rightarrow> (py_error + unit) \<times> world" where
  "add_model listify core_add_model models initial_state w =
     (case core_add_model models initial_state w of
        (Inl e, w1) \<Rightarrow> (Inl e, w1)
      | (Inr _, w1) \<Rightarrow> bind_models listify models w1)"

subsection \<open>Worlds and parameters for the examples\<close>

text \<open>
  An instance of the parameter \<open>listify\<close>: a list is returned as it is, any other
  value as a one-element list.
\<close>

definition listify_example :: "pyval \<Rightarrow> pyval list" where
  "listify_example v = (case v of Seq xs \<Rightarrow> xs | _ \<Rightarrow> [v])"

text \<open>
  A machine (object 0) with the model attribute \<open>state\<close>. Model 1 is in state \<open>A\<close>; any
  other object has no attribute at all. No graph has been built.
\<close>

definition example_world :: world where
  "example_world =
     \<lparr>objects = (\<lambda>i. Map.empty)(1 := [''state'' \<mapsto> Str ''A'']),
      model_graphs = Map.empty, title = ''State Machine'',
      model_attribute = ''state'', self_id = 0, logged = []\<rparr>"

text \<open>The same world after the graph of model 1 has been built.\<close>

definition registered_world :: world where
  "registered_world = build_graph listify_example 1 example_world"

text \<open>
  Instances of the parameter \<open>core_change_state\<close>. The model enters \<open>B\<close>. The model
  enters \<open>B\<close> and a hook then asks for a new graph, as \<open>add_states\<close> and \<open>add_transition\<close>
  do for every model (\<open>model.get_graph(force_new=True)\<close>). The model enters parallel
  states inside \<open>P\<close>, its current state a nested list, of objects with a \<open>name\<close> or of
  strings.
\<close>

definition core_to_B :: "world \<Rightarrow> (py_error + unit) \<times> world" where
  "core_to_B w = (Inr (), w\<lparr>objects := (objects w)(1 := (objects w 1)(''state'' \<mapsto> Str ''B''))\<rparr>)"

definition core_rebuilding :: "world \<Rightarrow> (py_error + unit) \<times> world" where
  "core_rebuilding w =
     (case core_to_B w of
        (Inl e, w1) \<Rightarrow> (Inl e, w1)
      | (Inr u, w1) \<Rightarrow>
          (case get_graph listify_example 1 None True False w1 of
             (Inl e, w2) \<Rightarrow> (Inl e, w2)
           | (Inr d, w2) \<Rightarrow> (Inr (), w2)))"

definition core_to_nested_named :: "world \<Rightarrow> (py_error + unit) \<times> world" where
  "core_to_nested_named w =
     (Inr (), w\<lparr>objects := (objects w)(1 := (objects w 1)(''state'' \<mapsto>
        Seq [Named ''P_a'', Seq [Named ''P_b_x'', Named ''P_b_y'']]))\<rparr>)"

definition core_to_nested_strings :: "world \<Rightarrow> (py_error + unit) \<times> world" where
  "core_to_nested_strings w =
     (Inr (), w\<lparr>objects := (objects w)(1 := (objects w 1)(''state'' \<mapsto>
        Seq [Str ''P_a'', Seq [Str ''P_b_x'', Str ''P_b_y'']]))\<rparr>)"

text \<open>
  An instance of the parameter \<open>core_add_model\<close>: it binds an attribute \<open>trigger\<close> to every
  model of the list, as a machine binds its triggers to its models (the tests call
  \<open>m1.walk()\<close> on a model that was only handed to the machine).
\<close>

definition core_add_model_example ::
  "model_ref list \<Rightarrow> pyval option \<Rightarrow> world \<Rightarrow> (py_error + unit) \<times> world" where
  "core_add_model_example models ini w =
     (Inr (), foldl (\<lambda>w m. w\<lparr>objects := (objects w)(resolve w m :=
                               (objects w (resolve w m))(''trigger'' \<mapsto> Callable ''trigger''))\<rparr>) w models)"

text \<open>A world whose model 1 has a \<open>get_graph\<close> method of its own.\<close>

definition collision_world :: world where
  "collision_world =
     \<lparr>objects = (\<lambda>i. Map.empty)(1 := [''get_graph'' \<mapsto> Callable ''get_graph'']),
      model_graphs = Map.empty, title = ''State Machine'',
      model_attribute = ''state'', self_id = 0, logged = []\<rparr>"

subsection \<open>Facts about the machine's methods\<close>

lemma build_graph_frame:
  "objects (build_graph listify model w) = objects w"
  "self_id (build_graph listify model w) = self_id w"
  "title (build_graph listify model w) = title w"
  "model_attribute (build_graph listify model w) = model_attribute w"
  "m \<noteq> model \<Longrightarrow> model_graphs (build_graph listify model w) m = model_graphs w m"
  by (simp_all add: build_graph_def Let_def split: option.splits prod.splits)

lemma return_graph_world: "snd (return_graph model ttl show_roi grph w) = w"
  by (simp add: return_graph_def split: option.splits)

lemma return_graph_no_roi: "return_graph model ttl False grph w = (Inr (Drawable grph ttl None), w)"
  by (simp add: return_graph_def)

lemma get_graph_force:
  assumes "model_graphs (build_graph listify model w) model = Some grph"
  shows "get_graph listify model ttl True show_roi w =
         return_graph model ttl show_roi grph (build_graph listify model w)"
  using assms by (subst get_graph.simps) simp

lemma get_graph_cached:
  assumes "model_graphs w model = Some grph"
  shows "get_graph listify model ttl False show_roi w = return_graph model ttl show_roi grph w"
  using assms by (subst get_graph.simps) simp

lemma get_graph_lazy:
  assumes "model_graphs w model = None"
  shows "get_graph listify model ttl False show_roi w = get_graph listify model ttl True show_roi w"
proof -
  from build_graph_entry [of listify model w] obtain grph where
    g: "model_graphs (build_graph listify model w) model = Some grph" by auto
  have "get_graph listify model ttl False show_roi w =
        return_graph model ttl show_roi grph (build_graph listify model w)"
    using assms g
    by (subst get_graph.simps)
       (simp add: get_graph_force [OF g] return_graph_no_roi)
  with get_graph_force [OF g] show ?thesis by simp
qed

lemma get_graph_world:
  "snd (get_graph listify model ttl force_new show_roi w) =
   (if force_new \<or> model_graphs w model = None then build_graph listify model w else w)"
proof (cases "force_new \<or> model_graphs w model = None")
  case True
  from build_graph_entry [of listify model w] obtain grph where
    g: "model_graphs (build_graph listify model w) model = Some grph" by auto
  have "get_graph listify model ttl force_new show_roi w = get_graph listify model ttl True show_roi w"
    using True get_graph_lazy [of w model listify ttl show_roi] by (cases force_new) auto
  with True get_graph_force [OF g] show ?thesis by (simp add: return_graph_world)
next
  case False
  then obtain grph where "model_graphs w model = Some grph" "\<not> force_new" by auto
  with get_graph_cached [of w model grph listify ttl show_roi] False show ?thesis
    by (simp add: return_graph_world)
qed

lemma build_graph_no_state:
  assumes "objects w model (model_attribute w) = None"
  shows "build_graph listify model w =
         w\<lparr>model_graphs := (model_graphs w)(model \<mapsto> [Generate]),
           logged := logged w @ [(INFO, ''Could not set active state of diagram'')]\<rparr>"
  using assms by (simp add: build_graph_def Let_def)

lemma set_active_self_dest:
  "set_active (Some d) es g =
   (None, g @ map (\<lambda>s. Set_node_style (if has_name s then d else s) ''active'') es)"
  by (induction es arbitrary: g) simp_all

lemma flatten_no_seq: "e \<in> set (flatten xs) \<Longrightarrow> e \<noteq> Seq ys"
  by (induction xs arbitrary: e rule: flatten.induct) auto

lemma change_state_unfold:
  assumes "model_graphs w model = Some g"
  shows "change_state listify core self model w =
         (case core (w\<lparr>model_graphs := (model_graphs w)(model \<mapsto>
                          g @ [Reset_styling, Set_previous_transition (tr_source self) (tr_dest self)])\<rparr>) of
            (Inl e, w2) \<Rightarrow> (Inl e, w2)
          | (Inr u, w2) \<Rightarrow>
              (case model_graphs w2 model of
                 None \<Rightarrow> (Inl KeyError, w2)
               | Some g2 \<Rightarrow>
                   (case objects w2 model (model_attribute w2) of
                      None \<Rightarrow> (Inl AttributeError, w2)
                    | Some v \<Rightarrow>
                        (Inr (), w2\<lparr>model_graphs := (model_graphs w2)(model \<mapsto>
                            g2 @ map (\<lambda>s. Set_node_style (if has_name s then Str (tr_dest self) else s) ''active'')
                                     (flatten (listify v)))\<rparr>))))"
  using assms
  by (simp add: change_state_def Let_def set_active_self_dest split: prod.splits sum.splits option.splits)

lemma get_graph_build:
  "\<exists>grph. get_graph listify mdl ttl True False w =
           (Inr (Drawable grph ttl None), build_graph listify mdl w)"
proof -
  from build_graph_entry [of listify mdl w] obtain grph where
    g: "model_graphs (build_graph listify mdl w) mdl = Some grph" by auto
  from get_graph_force [OF g, of ttl False] show ?thesis by (simp add: return_graph_no_roi)
qed

lemma resolve_self_id: "self_id w' = self_id w \<Longrightarrow> resolve w' m = resolve w m"
  by (simp add: resolve_def split: model_ref.splits)

lemma bind_models_conflict:
  assumes "objects w t ''get_graph'' = Some g"
  shows "\<exists>r w'. bind_models listify ms w = (r, w') \<and>
           objects w' t = objects w t \<and> model_graphs w' t = model_graphs w t \<and>
           self_id w' = self_id w \<and>
           ((\<exists>m\<in>set ms. resolve w m = t) \<longrightarrow> r = Inl AttributeError)"
  using assms
proof (induction ms arbitrary: w)
  case Nil
  show ?case by simp
next
  case (Cons m ms)
  let ?mdl = "resolve w m"
  show ?case
  proof (cases "objects w ?mdl ''get_graph'' \<noteq> None")
    case True
    then show ?thesis by (simp add: Let_def)
  next
    case False
    with Cons.prems have ne: "?mdl \<noteq> t" by auto
    let ?w1 = "w\<lparr>objects := (objects w)(?mdl := (objects w ?mdl)(''get_graph'' \<mapsto> Bound_get_graph ?mdl))\<rparr>"
    from get_graph_build [of listify ?mdl "Some (title ?w1)" ?w1] obtain grph where
      gg: "get_graph listify ?mdl (Some (title ?w1)) True False ?w1 =
           (Inr (Drawable grph (Some (title ?w1)) None), build_graph listify ?mdl ?w1)"
      by blast
    let ?w2 = "build_graph listify ?mdl ?w1"
    have o2: "objects ?w2 t = objects w t" using ne by (simp add: build_graph_frame)
    have m2: "model_graphs ?w2 t = model_graphs w t"
      using ne build_graph_frame(5) [of t ?mdl listify ?w1] by simp
    have s2: "self_id ?w2 = self_id w" by (simp add: build_graph_frame)
    from Cons.prems o2 have "objects ?w2 t ''get_graph'' = Some g" by simp
    from Cons.IH [OF this] obtain r w' where
      ih: "bind_models listify ms ?w2 = (r, w')" "objects w' t = objects ?w2 t"
          "model_graphs w' t = model_graphs ?w2 t" "self_id w' = self_id ?w2"
          "(\<exists>m\<in>set ms. resolve ?w2 m = t) \<longrightarrow> r = Inl AttributeError"
      by blast
    have b: "bind_models listify (m # ms) w = (r, w')"
      using False gg ih(1) by (simp add: Let_def)
    have "(\<exists>m'\<in>set (m # ms). resolve w m' = t) \<longrightarrow> r = Inl AttributeError"
      using ih(5) ne resolve_self_id [OF s2] by auto
    with b ih(2-4) o2 m2 s2 show ?thesis by simp
  qed
qed

lemma set_active_shape:
  "set_active sd es g = (r, g') \<Longrightarrow>
   \<exists>ms. g' = g @ ms \<and> (\<forall>c\<in>set ms. \<exists>n. c = Set_node_style n ''active'')"
proof (induction es arbitrary: g)
  case Nil
  then show ?case by simp
next
  case (Cons e es)
  show ?case
  proof (cases "has_name e")
    case True
    show ?thesis
    proof (cases sd)
      case None
      with True Cons.prems show ?thesis by simp
    next
      case (Some d)
      with True Cons.prems have "set_active sd es (g @ [Set_node_style d ''active'']) = (r, g')"
        by simp
      from Cons.IH [OF this] obtain ms where
        "g' = (g @ [Set_node_style d ''active'']) @ ms"
        "\<forall>c\<in>set ms. \<exists>n. c = Set_node_style n ''active''" by blast
      then have "g' = g @ (Set_node_style d ''active'' # ms) \<and>
                 (\<forall>c\<in>set (Set_node_style d ''active'' # ms). \<exists>n. c = Set_node_style n ''active'')"
        by simp
      then show ?thesis by blast
    qed
  next
    case False
    with Cons.prems have "set_active sd es (g @ [Set_node_style e ''active'']) = (r, g')"
      by simp
    from Cons.IH [OF this] obtain ms where
      "g' = (g @ [Set_node_style e ''active'']) @ ms"
      "\<forall>c\<in>set ms. \<exists>n. c = Set_node_style n ''active''" by blast
    then have "g' = g @ (Set_node_style e ''active'' # ms) \<and>
               (\<forall>c\<in>set (Set_node_style e ''active'' # ms). \<exists>n. c = Set_node_style n ''active'')"
      by simp
    then show ?thesis by blast
  qed
qed

lemma build_graph_shape:
  "\<exists>ms. model_graphs (build_graph listify model w) model = Some (Generate # ms) \<and>
        (\<forall>c\<in>set ms. \<exists>n. c = Set_node_style n ''active'')"
proof (cases "objects w model (model_attribute w)")
  case None
  then show ?thesis by (simp add: build_graph_def Let_def)
next
  case (Some v)
  obtain r g' where s: "set_active (objects w (self_id w) ''dest'') (flatten (listify v)) [Generate] = (r, g')"
    by (cases "set_active (objects w (self_id w) ''dest'') (flatten (listify v)) [Generate]")
  from set_active_shape [OF s] obtain ms where
    m: "g' = [Generate] @ ms" "\<forall>c\<in>set ms. \<exists>n. c = Set_node_style n ''active''" by blast
  have "model_graphs (build_graph listify model w) model = Some g'"
    using Some s by (cases r) (simp_all add: build_graph_def Let_def)
  with m show ?thesis by simp
qed

lemma return_graph_drawable:
  "fst (return_graph model ttl show_roi grph w) = Inr d \<Longrightarrow> \<exists>r. d = Drawable grph ttl r"
  by (auto simp: return_graph_def split: if_splits option.splits)

section \<open>Properties of the labels\<close>

text \<open>
  \<^bold>\<open>Claim C4.\<close> For a transition with a trigger, the label is the \<open>label\<close> override if there
  is one and the trigger otherwise; then \<open>" [internal]"\<close> exactly when the transition has no
  \<open>dest\<close>; then, when conditions are shown and the transition has a \<open>conditions\<close> or an
  \<open>unless\<close> key, the conditions and the \<open>unless\<close> guards, each guard behind \<open>"!"\<close>,
  joined by \<open>" & "\<close>, in brackets.
\<close>

theorem transition_label_value:
  assumes "trigger tran = Some trg"
  shows "transition_label show_conditions tran =
         Inr ((case label tran of Some l \<Rightarrow> l | None \<Rightarrow> trg) @
              (if dest tran = None then '' [internal]'' else []) @
              (if show_conditions \<and> (conditions tran \<noteq> None \<or> unless tran \<noteq> None)
               then '' ['' @ join '' & '' (get_list (conditions tran) @
                                         map (\<lambda>u. ''!'' @ u) (get_list (unless tran))) @ '']''
               else []))"
  using assms by (simp add: transition_label_def Let_def)

theorem transition_label_value_witness:
  "trigger \<lparr>trigger = Some ''fail'', source = Some ''A'', dest = None,
            conditions = Some [''failed'', ''late''], unless = Some [''busy''], label = None\<rparr> =
     Some ''fail'' \<and>
   transition_label True
     \<lparr>trigger = Some ''fail'', source = Some ''A'', dest = None,
      conditions = Some [''failed'', ''late''], unless = Some [''busy''], label = None\<rparr> =
   Inr ''fail [internal] [failed & late & !busy]''"
proof -
  let ?t = "\<lparr>trigger = Some ''fail'', source = Some ''A'', dest = None,
      conditions = Some [''failed'', ''late''], unless = Some [''busy''], label = None\<rparr>"
  have h: "trigger ?t = Some ''fail''" by simp
  from transition_label_value [OF h, of True]
  have "transition_label True ?t = Inr ''fail [internal] [failed & late & !busy]''"
    by (simp add: get_list_def)
  with h show ?thesis by (rule conjI)
qed

section \<open>Properties of the machine\<close>

text \<open>
  \<^bold>\<open>Claim C5\<close>, as stated, fails in its conclusion: a hook that asks for the graph with
  \<open>force_new\<close> gets a new graph, which has the active mark of the state just entered and
  neither the reset nor the previous mark; the marks of \<open>_change_state\<close> then go to that
  graph, which ends with two active marks.
\<close>

theorem rebuilding_hook_sees_active:
  "fst (get_graph listify_example 1 None True False
          (snd (core_to_B
             (registered_world\<lparr>model_graphs := (model_graphs registered_world)(1 \<mapsto>
                [Generate, Set_node_style (Str ''A'') ''active'', Reset_styling,
                 Set_previous_transition ''A'' ''B''])\<rparr>)))) =
     Inr (Drawable [Generate, Set_node_style (Str ''B'') ''active''] None None) \<and>
   fst (change_state listify_example core_rebuilding \<lparr>tr_source = ''A'', tr_dest = ''B''\<rparr> 1
          registered_world) = Inr () \<and>
   model_graphs (snd (change_state listify_example core_rebuilding
                        \<lparr>tr_source = ''A'', tr_dest = ''B''\<rparr> 1 registered_world)) 1 =
     Some [Generate, Set_node_style (Str ''B'') ''active'', Set_node_style (Str ''B'') ''active'']"
  by code_simp

text \<open>
  \<^bold>\<open>Claim C5\<close>, amended. For a model with a graph, \<open>_change_state\<close> first calls
  \<open>reset_styling\<close> and \<open>set_previous_transition(source, dest)\<close> on it and nothing else; the
  state change of the base class runs on that world; only when it has returned are the
  \<open>set_node_style(..., "active")\<close> calls made, one per flattened state, on the graph the
  registry holds then. A graph query without \<open>force_new\<close>, made while the registry still
  holds the graph as it was handed over, returns that graph: reset, previous-marked, not yet
  active-marked. A query with \<open>force_new\<close> returns a new graph: \<open>generate\<close> and active
  marks only.
\<close>

theorem change_state_styling_order:
  assumes "model_graphs w model = Some g"
  shows "change_state listify core self model w =
         (case core (w\<lparr>model_graphs := (model_graphs w)(model \<mapsto>
                          g @ [Reset_styling, Set_previous_transition (tr_source self) (tr_dest self)])\<rparr>) of
            (Inl e, w2) \<Rightarrow> (Inl e, w2)
          | (Inr u, w2) \<Rightarrow>
              (case model_graphs w2 model of
                 None \<Rightarrow> (Inl KeyError, w2)
               | Some g2 \<Rightarrow>
                   (case objects w2 model (model_attribute w2) of
                      None \<Rightarrow> (Inl AttributeError, w2)
                    | Some v \<Rightarrow>
                        (Inr (), w2\<lparr>model_graphs := (model_graphs w2)(model \<mapsto>
                            g2 @ map (\<lambda>s. Set_node_style (if has_name s then Str (tr_dest self) else s) ''active'')
                                     (flatten (listify v)))\<rparr>)))) \<and>
         (\<forall>w' ttl roi d.
            model_graphs w' model =
              Some (g @ [Reset_styling, Set_previous_transition (tr_source self) (tr_dest self)]) \<and>
            fst (get_graph listify model ttl False roi w') = Inr d \<longrightarrow>
            (\<exists>r. d = Drawable
                      (g @ [Reset_styling, Set_previous_transition (tr_source self) (tr_dest self)])
                      ttl r)) \<and>
         (\<forall>w' ttl roi d.
            fst (get_graph listify model ttl True roi w') = Inr d \<longrightarrow>
            (\<exists>ms r. d = Drawable (Generate # ms) ttl r \<and>
                    (\<forall>c\<in>set ms. \<exists>n. c = Set_node_style n ''active'')))"
proof (intro conjI allI impI)
  show "change_state listify core self model w =
         (case core (w\<lparr>model_graphs := (model_graphs w)(model \<mapsto>
                          g @ [Reset_styling, Set_previous_transition (tr_source self) (tr_dest self)])\<rparr>) of
            (Inl e, w2) \<Rightarrow> (Inl e, w2)
          | (Inr u, w2) \<Rightarrow>
              (case model_graphs w2 model of
                 None \<Rightarrow> (Inl KeyError, w2)
               | Some g2 \<Rightarrow>
                   (case objects w2 model (model_attribute w2) of
                      None \<Rightarrow> (Inl AttributeError, w2)
                    | Some v \<Rightarrow>
                        (Inr (), w2\<lparr>model_graphs := (model_graphs w2)(model \<mapsto>
                            g2 @ map (\<lambda>s. Set_node_style (if has_name s then Str (tr_dest self) else s) ''active'')
                                     (flatten (listify v)))\<rparr>))))"
    by (rule change_state_unfold [OF assms])
next
  fix w' ttl roi d
  let ?G = "g @ [Reset_styling, Set_previous_transition (tr_source self) (tr_dest self)]"
  assume a: "model_graphs w' model = Some ?G \<and> fst (get_graph listify model ttl False roi w') = Inr d"
  then have "fst (return_graph model ttl roi ?G w') = Inr d"
    using get_graph_cached [of w' model ?G listify ttl roi] by simp
  from return_graph_drawable [OF this] show "\<exists>r. d = Drawable ?G ttl r" .
next
  fix w' ttl roi d
  assume a: "fst (get_graph listify model ttl True roi w') = Inr d"
  from build_graph_shape [of listify model w'] obtain ms where
    m: "model_graphs (build_graph listify model w') model = Some (Generate # ms)"
       "\<forall>c\<in>set ms. \<exists>n. c = Set_node_style n ''active''" by blast
  from a get_graph_force [OF m(1), of ttl roi]
  have "fst (return_graph model ttl roi (Generate # ms) (build_graph listify model w')) = Inr d"
    by simp
  from return_graph_drawable [OF this] m(2)
  show "\<exists>ms r. d = Drawable (Generate # ms) ttl r \<and> (\<forall>c\<in>set ms. \<exists>n. c = Set_node_style n ''active'')"
    by blast
qed

theorem change_state_styling_order_witness:
  "model_graphs registered_world 1 = Some [Generate, Set_node_style (Str ''A'') ''active''] \<and>
   model_graphs (snd (change_state listify_example core_to_B \<lparr>tr_source = ''A'', tr_dest = ''B''\<rparr> 1
                        registered_world)) 1 =
     Some [Generate, Set_node_style (Str ''A'') ''active'', Reset_styling,
           Set_previous_transition ''A'' ''B'', Set_node_style (Str ''B'') ''active''] \<and>
   fst (get_graph listify_example 1 None False False
          (snd (core_to_B
             (registered_world\<lparr>model_graphs := (model_graphs registered_world)(1 \<mapsto>
                [Generate, Set_node_style (Str ''A'') ''active'', Reset_styling,
                 Set_previous_transition ''A'' ''B''])\<rparr>)))) =
     Inr (Drawable [Generate, Set_node_style (Str ''A'') ''active'', Reset_styling,
                    Set_previous_transition ''A'' ''B''] None None)"
proof -
  have h: "model_graphs registered_world 1 = Some [Generate, Set_node_style (Str ''A'') ''active'']"
    by code_simp
  note e = change_state_styling_order [where core = core_to_B and listify = listify_example
                     and self = "\<lparr>tr_source = ''A'', tr_dest = ''B''\<rparr>", OF h, THEN conjunct1]
  have f: "model_graphs (snd (change_state listify_example core_to_B \<lparr>tr_source = ''A'', tr_dest = ''B''\<rparr> 1
                        registered_world)) 1 =
     Some [Generate, Set_node_style (Str ''A'') ''active'', Reset_styling,
           Set_previous_transition ''A'' ''B'', Set_node_style (Str ''B'') ''active'']"
    unfolding e by code_simp
  have q: "fst (get_graph listify_example 1 None False False
          (snd (core_to_B
             (registered_world\<lparr>model_graphs := (model_graphs registered_world)(1 \<mapsto>
                [Generate, Set_node_style (Str ''A'') ''active'', Reset_styling,
                 Set_previous_transition ''A'' ''B''])\<rparr>)))) =
     Inr (Drawable [Generate, Set_node_style (Str ''A'') ''active'', Reset_styling,
                    Set_previous_transition ''A'' ''B''] None None)"
    by code_simp
  from h f q show ?thesis by (intro conjI)
qed

text \<open>
  \<^bold>\<open>Claim C6.\<close> The code at the failing input. The current state is a nested list: it
  is flattened into its three elements. When they are objects with a \<open>name\<close>, the node
  marked for each is the transition's \<open>dest\<close>: \<open>P\<close> is marked three times and none of the
  three states is marked. When they are strings, each of them is marked.
\<close>

theorem named_state_marks_dest:
  "flatten (listify_example (Seq [Named ''P_a'', Seq [Named ''P_b_x'', Named ''P_b_y'']])) =
     [Named ''P_a'', Named ''P_b_x'', Named ''P_b_y''] \<and>
   model_graphs (snd (change_state listify_example core_to_nested_named
                        \<lparr>tr_source = ''A'', tr_dest = ''P''\<rparr> 1 registered_world)) 1 =
     Some [Generate, Set_node_style (Str ''A'') ''active'', Reset_styling,
           Set_previous_transition ''A'' ''P'',
           Set_node_style (Str ''P'') ''active'', Set_node_style (Str ''P'') ''active'',
           Set_node_style (Str ''P'') ''active''] \<and>
   model_graphs (snd (change_state listify_example core_to_nested_strings
                        \<lparr>tr_source = ''A'', tr_dest = ''P''\<rparr> 1 registered_world)) 1 =
     Some [Generate, Set_node_style (Str ''A'') ''active'', Reset_styling,
           Set_previous_transition ''A'' ''P'',
           Set_node_style (Str ''P_a'') ''active'', Set_node_style (Str ''P_b_x'') ''active'',
           Set_node_style (Str ''P_b_y'') ''active'']"
  by code_simp

text \<open>
  What \<open>_change_state\<close> marks in general, once the state change has returned: one call per
  element of the flattened current state, for the element itself when it has no \<open>name\<close>.
\<close>

lemma change_state_active_marks:
  assumes "model_graphs w model = Some g"
      and "core (w\<lparr>model_graphs := (model_graphs w)(model \<mapsto>
                     g @ [Reset_styling, Set_previous_transition (tr_source self) (tr_dest self)])\<rparr>) = (Inr u, w2)"
      and "model_graphs w2 model = Some g2"
      and "objects w2 model (model_attribute w2) = Some v"
  shows "change_state listify core self model w =
           (Inr (), w2\<lparr>model_graphs := (model_graphs w2)(model \<mapsto>
              g2 @ map (\<lambda>s. Set_node_style (if has_name s then Str (tr_dest self) else s) ''active'')
                       (flatten (listify v)))\<rparr>) \<and>
         (\<forall>e\<in>set (flatten (listify v)). \<forall>ys. e \<noteq> Seq ys) \<and>
         ((\<forall>e\<in>set (flatten (listify v)). \<not> has_name e) \<longrightarrow>
            map (\<lambda>s. Set_node_style (if has_name s then Str (tr_dest self) else s) ''active'')
                (flatten (listify v)) =
            map (\<lambda>s. Set_node_style s ''active'') (flatten (listify v)))"
proof -
  have a: "change_state listify core self model w =
           (Inr (), w2\<lparr>model_graphs := (model_graphs w2)(model \<mapsto>
              g2 @ map (\<lambda>s. Set_node_style (if has_name s then Str (tr_dest self) else s) ''active'')
                       (flatten (listify v)))\<rparr>)"
    using assms(2-4) unfolding change_state_unfold [OF assms(1)] by simp
  have b: "\<forall>e\<in>set (flatten (listify v)). \<forall>ys. e \<noteq> Seq ys"
    using flatten_no_seq by blast
  from a b show ?thesis by simp
qed

text \<open>
  \<^bold>\<open>Claim C7\<close>, as stated, fails in its last part: the registration of the base class runs
  before the check for \<open>get_graph\<close> and is not undone when the check raises. With a base
  registration that binds a \<open>trigger\<close>, the model has it after the failed call.
\<close>

theorem failed_registration_keeps_base_binding:
  "objects collision_world 1 ''get_graph'' = Some (Callable ''get_graph'') \<and>
   objects collision_world 1 ''trigger'' = None \<and>
   fst (add_model listify_example core_add_model_example [Model 1] None collision_world) =
     Inl AttributeError \<and>
   objects (snd (add_model listify_example core_add_model_example [Model 1] None collision_world))
     1 ''trigger'' = Some (Callable ''trigger'')"
  by code_simp

text \<open>
  \<^bold>\<open>Claim C7\<close>, amended. When the base registration has run and a model of the list then has a
  \<open>get_graph\<close> attribute, \<open>add_model\<close> raises \<open>AttributeError\<close>; \<open>get_graph\<close> is not
  overwritten, and the model's attributes and its entry in the graph registry are as the base
  registration left them.
\<close>

theorem conflicting_model_rejected:
  assumes "core_add_model models ini w = (Inr u, w1)"
      and "m \<in> set models"
      and "objects w1 (resolve w1 m) ''get_graph'' = Some g"
  shows "\<exists>w'. add_model listify core_add_model models ini w = (Inl AttributeError, w') \<and>
           objects w' (resolve w1 m) ''get_graph'' = Some g \<and>
           objects w' (resolve w1 m) = objects w1 (resolve w1 m) \<and>
           model_graphs w' (resolve w1 m) = model_graphs w1 (resolve w1 m)"
proof -
  from bind_models_conflict [OF assms(3), of listify models] obtain r w' where
    b: "bind_models listify models w1 = (r, w')"
       "objects w' (resolve w1 m) = objects w1 (resolve w1 m)"
       "model_graphs w' (resolve w1 m) = model_graphs w1 (resolve w1 m)"
       "(\<exists>m'\<in>set models. resolve w1 m' = resolve w1 m) \<longrightarrow> r = Inl AttributeError"
    by blast
  from b(4) assms(2) have "r = Inl AttributeError" by blast
  with b assms(1,3) show ?thesis by (simp add: add_model_def)
qed

theorem conflicting_model_rejected_witness:
  "core_add_model_example [Model 1] None collision_world =
     (Inr (), snd (core_add_model_example [Model 1] None collision_world)) \<and>
   (\<exists>w'. add_model listify_example core_add_model_example [Model 1] None collision_world =
            (Inl AttributeError, w') \<and>
          objects w' 1 ''get_graph'' = Some (Callable ''get_graph'') \<and>
          model_graphs w' 1 = None)"
proof -
  let ?w1 = "snd (core_add_model_example [Model 1] None collision_world)"
  have h1: "core_add_model_example [Model 1] None collision_world = (Inr (), ?w1)"
    by (simp add: core_add_model_example_def)
  have h2: "Model 1 \<in> set [Model 1]" by simp
  have r: "resolve ?w1 (Model 1) = 1" by (simp add: resolve_def)
  have h3: "objects ?w1 (resolve ?w1 (Model 1)) ''get_graph'' = Some (Callable ''get_graph'')"
    unfolding r by code_simp
  have g: "model_graphs ?w1 1 = None" by code_simp
  from conflicting_model_rejected [where core_add_model = core_add_model_example and listify = listify_example, OF h1 h2 h3] obtain w' where
    "add_model listify_example core_add_model_example [Model 1] None collision_world =
       (Inl AttributeError, w')"
    "objects w' 1 ''get_graph'' = Some (Callable ''get_graph'')"
    "model_graphs w' 1 = None"
    unfolding r using g by auto
  with h1 show ?thesis by blast
qed

text \<open>
  \<^bold>\<open>Claim C9\<close>, as stated, fails when a region of interest is asked for: the \<open>return\<close>
  statement reads the current state again, outside the \<open>try\<close>, and the call raises.
\<close>

theorem no_state_with_roi_raises:
  "objects example_world 2 (model_attribute example_world) = None \<and>
   fst (get_graph listify_example 2 None True True example_world) = Inl AttributeError \<and>
   model_graphs (snd (get_graph listify_example 2 None True True example_world)) 2 = Some [Generate]"
  by code_simp

text \<open>
  \<^bold>\<open>Claim C9\<close>, amended. When a graph is built for a model (\<open>force_new\<close>, or no entry) that has
  no current-state attribute, the styling is skipped with an informational log line, and the
  graph is built and cached without an active mark. It is returned when no region of interest
  is asked for; with \<open>show_roi\<close> the call raises \<open>AttributeError\<close> after building and caching.
\<close>

theorem graph_built_without_state:
  assumes "objects w model (model_attribute w) = None"
      and "force_new \<or> model_graphs w model = None"
  shows "get_graph listify model ttl force_new show_roi w =
         (if show_roi then Inl AttributeError else Inr (Drawable [Generate] ttl None),
          w\<lparr>model_graphs := (model_graphs w)(model \<mapsto> [Generate]),
            logged := logged w @ [(INFO, ''Could not set active state of diagram'')]\<rparr>)"
proof -
  let ?w = "w\<lparr>model_graphs := (model_graphs w)(model \<mapsto> [Generate]),
              logged := logged w @ [(INFO, ''Could not set active state of diagram'')]\<rparr>"
  have b: "build_graph listify model w = ?w" by (rule build_graph_no_state [OF assms(1)])
  then have g: "model_graphs (build_graph listify model w) model = Some [Generate]" by simp
  have "get_graph listify model ttl force_new show_roi w = get_graph listify model ttl True show_roi w"
    using assms(2) get_graph_lazy [of w model listify ttl show_roi] by (cases force_new) auto
  also have "\<dots> = return_graph model ttl show_roi [Generate] ?w"
    using get_graph_force [OF g, of ttl show_roi] b by simp
  also have "\<dots> = (if show_roi then Inl AttributeError else Inr (Drawable [Generate] ttl None), ?w)"
    using assms(1) by (simp add: return_graph_def)
  finally show ?thesis .
qed

theorem graph_built_without_state_witness:
  "objects example_world 2 (model_attribute example_world) = None \<and>
   model_graphs example_world 2 = None \<and>
   fst (get_graph listify_example 2 (Some ''t'') False False example_world) =
     Inr (Drawable [Generate] (Some ''t'') None) \<and>
   model_graphs (snd (get_graph listify_example 2 (Some ''t'') False False example_world)) 2 =
     Some [Generate] \<and>
   logged (snd (get_graph listify_example 2 (Some ''t'') False False example_world)) =
     [(INFO, ''Could not set active state of diagram'')]"
proof -
  have h1: "objects example_world 2 (model_attribute example_world) = None" by code_simp
  have h2: "model_graphs example_world 2 = None" by code_simp
  have l: "logged example_world = []" by code_simp
  from h2 have h3: "False \<or> model_graphs example_world 2 = None" by simp
  note e = graph_built_without_state [OF h1 h3, of listify_example "Some ''t''" False]
  have "fst (get_graph listify_example 2 (Some ''t'') False False example_world) =
          Inr (Drawable [Generate] (Some ''t'') None)"
    unfolding e by simp
  moreover have "model_graphs (snd (get_graph listify_example 2 (Some ''t'') False False example_world)) 2 =
          Some [Generate]"
    unfolding e by simp
  moreover have "logged (snd (get_graph listify_example 2 (Some ''t'') False False example_world)) =
          [(INFO, ''Could not set active state of diagram'')]"
    unfolding e using l by simp
  ultimately show ?thesis using h1 h2 by blast
qed

text \<open>
  \<^bold>\<open>Claim C10.\<close> After \<open>_get_graph\<close>, whatever its arguments, the registry has an entry for the
  model. Without \<open>force_new\<close>, on a model with no entry, the call is the \<open>force_new\<close> call:
  same result, same world, which is the world after the \<open>force_new\<close> block; and when no
  region of interest is asked for it returns a graph.
\<close>

theorem get_graph_registers_model:
  "model_graphs (snd (get_graph listify model ttl force_new show_roi w)) model \<noteq> None \<and>
   (model_graphs w model = None \<longrightarrow>
      get_graph listify model ttl False show_roi w = get_graph listify model ttl True show_roi w \<and>
      snd (get_graph listify model ttl False show_roi w) = build_graph listify model w \<and>
      (\<exists>d. fst (get_graph listify model ttl False False w) = Inr d))"
proof -
  have a: "model_graphs (snd (get_graph listify model ttl force_new show_roi w)) model \<noteq> None"
    using build_graph_entry [of listify model w] unfolding get_graph_world by auto
  have b: "\<exists>d. fst (get_graph listify model ttl False False w) = Inr d" if "model_graphs w model = None"
  proof -
    from build_graph_entry [of listify model w] obtain grph where
      g: "model_graphs (build_graph listify model w) model = Some grph" by auto
    from get_graph_lazy [OF that, of listify ttl False] get_graph_force [OF g, of ttl False]
    show ?thesis by (simp add: return_graph_no_roi)
  qed
  from a b get_graph_lazy [of w model listify ttl show_roi] get_graph_world [of listify model ttl False show_roi w]
  show ?thesis by auto
qed

theorem get_graph_registers_model_witness:
  "model_graphs example_world 1 = None \<and>
   get_graph listify_example 1 None False False example_world =
     get_graph listify_example 1 None True False example_world \<and>
   snd (get_graph listify_example 1 None False False example_world) =
     build_graph listify_example 1 example_world \<and>
   model_graphs (build_graph listify_example 1 example_world) 1 =
     Some [Generate, Set_node_style (Str ''A'') ''active'']"
proof -
  have h: "model_graphs example_world 1 = None" by code_simp
  have b: "model_graphs (build_graph listify_example 1 example_world) 1 =
           Some [Generate, Set_node_style (Str ''A'') ''active'']" by code_simp
  from get_graph_registers_model [of listify_example 1 None False False example_world] h
  have "get_graph listify_example 1 None False False example_world =
          get_graph listify_example 1 None True False example_world \<and>
        snd (get_graph listify_example 1 None False False example_world) =
          build_graph listify_example 1 example_world"
    by blast
  with h b show ?thesis by blast
qed

end
